theory Spec2Isabelle
  imports Main "HOL-Library.Char_ord" "HOL-Library.List_Lexorder" "HOL-Library.Product_Lexorder"
begin

section \<open>Bundle lifecycle of the software updater: data model\<close>

text \<open>
  The C structures \<^verbatim>\<open>struct file\<close>, \<^verbatim>\<open>struct manifest\<close> and \<^verbatim>\<open>struct sub\<close> are declared in
  \<^verbatim>\<open>swupd.h\<close>; the fields kept here are the ones the bundle code reads or writes.
  File names are C strings compared with \<^verbatim>\<open>strcmp\<close>: byte-wise lexicographic order, which is
  the order of \<open>string\<close> given by the character and list orders imported above.
\<close>

record file_entry =
  filename :: string
  hash :: string
  last_change :: int
  is_deleted :: bool
  do_not_update :: bool
  staging :: "string option"

record manifest =
  component :: string
  version :: int
  files :: "file_entry list"
  "includes" :: "string list"
  manifests :: "file_entry list"

text \<open>A manifest of manifests additionally carries the loaded sub-manifests.\<close>

record MoM = manifest +
  submanifests :: "manifest list"

record sub =
  sub_component :: string
  sub_version :: int

section \<open>File consolidation and de-duplication\<close>

text \<open>
  Modelled from the spec: \<^verbatim>\<open>list_sort\<close> and the comparison \<^verbatim>\<open>file_sort_filename\<close> are not
  among the sources. \<^verbatim>\<open>remove_bundle\<close> sorts the files of the bundle by path with them.
\<close>

definition file_sort_filename :: "file_entry list \<Rightarrow> file_entry list" where
  "file_sort_filename fs = sort_key filename fs"

text \<open>
  Modelled from the spec: \<^verbatim>\<open>files_from_bundles\<close> is not among the sources. It
  concatenates the file lists of the sub-manifests, preserving input order.
\<close>

definition files_from_bundles :: "manifest list \<Rightarrow> file_entry list" where
  "files_from_bundles ms = concat (map files ms)"

text \<open>
  Modelled from the spec: \<^verbatim>\<open>consolidate_files\<close> is not among the sources. Step 1 sorts by
  path ascending, version descending, deleted last, hash ascending; step 2 walks the sorted
  sequence and keeps the first entry of each distinct path.
\<close>

definition consolidate_key :: "file_entry \<Rightarrow> string \<times> int \<times> bool \<times> string" where
  "consolidate_key f = (filename f, - last_change f, is_deleted f, hash f)"

fun keep_first :: "file_entry list \<Rightarrow> file_entry list" where
  "keep_first [] = []"
| "keep_first [f] = [f]"
| "keep_first (f # g # fs) =
     (if filename f = filename g then keep_first (f # fs) else f # keep_first (g # fs))"

definition consolidate_files :: "file_entry list \<Rightarrow> file_entry list" where
  "consolidate_files fs = keep_first (sort_key consolidate_key fs)"

text \<open>
  Modelled from the spec: \<^verbatim>\<open>deduplicate_files_from_manifest\<close> is not among the sources. Both
  lists are sorted by path and walked in lock-step. An entry of the bundle list whose path
  is the current path of the reference list is removed from the bundle list, and the walk
  of the bundle list moves on: every entry of a path present in the reference list is
  removed. Otherwise the walk with the smaller path moves on, an entry of the bundle list
  that is passed being kept.
\<close>

fun deduplicate_files :: "file_entry list \<Rightarrow> file_entry list \<Rightarrow> file_entry list" where
  "deduplicate_files [] rs = []"
| "deduplicate_files bs [] = bs"
| "deduplicate_files (b # bs) (r # rs) =
     (if filename b = filename r then deduplicate_files bs (r # rs)
      else if filename b < filename r then b # deduplicate_files bs (r # rs)
      else deduplicate_files (b # bs) rs)"

section \<open>Collaborators outside the sources, state and effects\<close>

text \<open>
  The exit codes are macros of \<^verbatim>\<open>swupd.h\<close>, which is not among the sources. The spec makes
  each error a distinct kind with its own nonzero exit code, and \<open>0\<close> the success; a test
  \<^verbatim>\<open>ret != 0\<close> of the code is a comparison with \<open>EXIT_SUCCESS\<close> here. \<open>EINIT\<close> stands for
  the init failure of \<^verbatim>\<open>swupd_init\<close>.
\<close>

datatype retcode =
    EXIT_SUCCESS | EXIT_FAILURE | EINIT | ECURRENT_VERSION | EMOM_NOTFOUND
  | ERECURSE_MANIFEST | EBUNDLE_NOT_TRACKED | EBUNDLE_REMOVE | EBUNDLE_INSTALL

text \<open>
  What the code does to the world outside the process is recorded, in order, as a trace of
  events; \<open>Rename None\<close> is \<^verbatim>\<open>rename_staged_file_to_final\<close> applied to a null pointer.
\<close>

datatype event =
    LoadMoM int
  | Load string
  | Sleep int
  | Print string
  | RmStagingDir
  | DownloadPacks
  | DoStaging string bool
  | VerifyFixPath string bool
  | Rename "file_entry option"
  | Sync
  | RunScripts
  | Unlink string
  | RmBundleFile string

text \<open>
  The environment holds the answers of the collaborators that are not among the sources:
  the macro \<^verbatim>\<open>MAX_TRIES\<close>, initialisation, network and version discovery, the fetches (whose
  outcome may change from one attempt to the next, hence the clock argument), the tracked
  bundles directory, the ignore predicate and the outcome of staging. The tracked bundles
  directory is the one found at the start of the operation: the code reads it only before
  the first event that changes it (the removal of a marker, a rename).
\<close>

record env =
  MAX_TRIES :: int
  swupd_init :: retcode
  check_network :: bool
  get_current_version :: int
  mom_fetch :: "nat \<Rightarrow> int \<Rightarrow> MoM option"
  manifest_available :: "nat \<Rightarrow> file_entry \<Rightarrow> bool"
  manifest_content :: "file_entry \<Rightarrow> manifest"
  jitter :: "nat \<Rightarrow> int"
  tracked_bundles :: "string list"
  ignore :: "file_entry \<Rightarrow> bool"
  staging_ok :: "nat \<Rightarrow> file_entry \<Rightarrow> bool"
  fix_path_ok :: "nat \<Rightarrow> string \<Rightarrow> bool"
  staged_path :: "file_entry \<Rightarrow> string"

text \<open>
  The process state: the global subscription list \<^verbatim>\<open>subs\<close>, the number of collaborator
  calls made so far, and the trace.
\<close>

record state =
  subs :: "sub list"
  clock :: nat
  trace :: "event list"

definition emit :: "event list \<Rightarrow> state \<Rightarrow> state" where
  "emit es st = st\<lparr>trace := trace st @ es\<rparr>"

definition tick :: "state \<Rightarrow> state" where
  "tick st = st\<lparr>clock := Suc (clock st)\<rparr>"

text \<open>
  The events that change the disk. Fetching a manifest, sleeping and printing do not count:
  the spec takes a failed manifest load to leave the filesystem as it was.
\<close>

definition mutates :: "event \<Rightarrow> bool" where
  "mutates e = (case e of LoadMoM v \<Rightarrow> False | Load b \<Rightarrow> False | Sleep t \<Rightarrow> False
                 | Print n \<Rightarrow> False | _ \<Rightarrow> True)"

text \<open>
  Modelled from the spec: \<^verbatim>\<open>load_mom\<close> is not among the sources. It fetches, verifies and
  parses the manifest of manifests of a version, or fails.
\<close>

definition load_mom :: "env \<Rightarrow> int \<Rightarrow> state \<Rightarrow> MoM option \<times> state" where
  "load_mom env ver st = (mom_fetch env (clock st) ver, tick (emit [LoadMoM ver] st))"

text \<open>
  Modelled from the spec: \<^verbatim>\<open>load_manifest\<close> is not among the sources. It fetches the bundle
  manifest a pointer entry of the MoM names and verifies its hash against the pointer before
  parsing, so a load that succeeds yields the content published for that pointer.
\<close>

definition load_manifest :: "env \<Rightarrow> file_entry \<Rightarrow> state \<Rightarrow> manifest option \<times> state" where
  "load_manifest env file st =
     (if manifest_available env (clock st) file then Some (manifest_content env file) else None,
      tick (emit [Load (filename file)] st))"

text \<open>
  Modelled from the spec: \<^verbatim>\<open>increment_retries\<close> is not among the sources. It counts the
  retry, sleeps \<open>timeout\<close> seconds, then doubles \<open>timeout\<close> and adds a small random jitter.
\<close>

definition increment_retries :: "env \<Rightarrow> int \<times> int \<Rightarrow> state \<Rightarrow> (int \<times> int) \<times> state" where
  "increment_retries env rt st =
     (case rt of (retries, timeout) \<Rightarrow>
        ((retries + 1, timeout * 2 + jitter env (clock st)), tick (emit [Sleep timeout] st)))"

text \<open>
  Modelled from the spec: \<^verbatim>\<open>search_bundle_in_manifest\<close> and \<^verbatim>\<open>search_file_in_manifest\<close> are
  not among the sources. They find the pointer of a bundle in \<open>manifests\<close>, and the entry of
  a path in \<open>files\<close>; \<open>None\<close> is the null pointer.
\<close>

definition search_bundle_in_manifest :: "'a manifest_scheme \<Rightarrow> string \<Rightarrow> file_entry option" where
  "search_bundle_in_manifest mom bundle = find (\<lambda>f. filename f = bundle) (manifests mom)"

definition search_file_in_manifest :: "'a manifest_scheme \<Rightarrow> string \<Rightarrow> file_entry option" where
  "search_file_in_manifest mom path = find (\<lambda>f. filename f = path) (files mom)"

section \<open>The subscription set\<close>

text \<open>\<^verbatim>\<open>is_tracked_bundle\<close>: \<^verbatim>\<open>stat\<close> of the marker file in the tracked bundles directory.\<close>

definition is_tracked_bundle :: "env \<Rightarrow> string \<Rightarrow> bool" where
  "is_tracked_bundle env bundle_name = (bundle_name \<in> set (tracked_bundles env))"

text \<open>
  Modelled from the spec: \<^verbatim>\<open>component_subscribed\<close>, \<^verbatim>\<open>create_and_append_subscription\<close>,
  \<^verbatim>\<open>read_subscriptions_alt\<close>, \<^verbatim>\<open>subscription_versions_from_MoM\<close> and \<^verbatim>\<open>free_subscriptions\<close>
  are not among the sources. A subscription is appended with version 0; loading the tracked
  bundles subscribes every name of the directory that is not subscribed yet; the versions
  are copied from the pointers of the MoM, a missing pointer leaving the version as it is.
\<close>

definition component_subscribed :: "sub list \<Rightarrow> string \<Rightarrow> bool" where
  "component_subscribed ss bundle = list_ex (\<lambda>s. sub_component s = bundle) ss"

definition create_and_append_subscription :: "string \<Rightarrow> state \<Rightarrow> state" where
  "create_and_append_subscription bundle st =
     st\<lparr>subs := subs st @ [\<lparr>sub_component = bundle, sub_version = 0\<rparr>]\<rparr>"

fun read_subscriptions_dir :: "string list \<Rightarrow> state \<Rightarrow> state" where
  "read_subscriptions_dir [] st = st"
| "read_subscriptions_dir (n # ns) st =
     (if component_subscribed (subs st) n then read_subscriptions_dir ns st
      else read_subscriptions_dir ns (create_and_append_subscription n st))"

definition read_subscriptions_alt :: "env \<Rightarrow> state \<Rightarrow> state" where
  "read_subscriptions_alt env st = read_subscriptions_dir (tracked_bundles env) st"

definition subscription_versions_from_MoM :: "'a manifest_scheme \<Rightarrow> state \<Rightarrow> state" where
  "subscription_versions_from_MoM mom st =
     st\<lparr>subs := map (\<lambda>s. case search_bundle_in_manifest mom (sub_component s) of
                               None \<Rightarrow> s
                             | Some p \<Rightarrow> s\<lparr>sub_version := last_change p\<rparr>) (subs st)\<rparr>"

definition free_subscriptions :: "state \<Rightarrow> state" where
  "free_subscriptions st = st\<lparr>subs := []\<rparr>"

text \<open>
  \<^verbatim>\<open>unload_tracked_bundle\<close>: the first subscription of that name is taken out of \<^verbatim>\<open>subs\<close>;
  without one the result is \<^verbatim>\<open>EBUNDLE_NOT_TRACKED\<close>.
\<close>

fun unload_tracked_list :: "string \<Rightarrow> sub list \<Rightarrow> retcode \<times> sub list" where
  "unload_tracked_list bundle_name [] = (EBUNDLE_NOT_TRACKED, [])"
| "unload_tracked_list bundle_name (bundle # bundles) =
     (if sub_component bundle = bundle_name then (EXIT_SUCCESS, bundles)
      else (case unload_tracked_list bundle_name bundles of
              (ret, rest) \<Rightarrow> (ret, bundle # rest)))"

definition unload_tracked_bundle :: "string \<Rightarrow> state \<Rightarrow> retcode \<times> state" where
  "unload_tracked_bundle bundle_name st =
     (case unload_tracked_list bundle_name (subs st) of
        (ret, ss) \<Rightarrow> (ret, st\<lparr>subs := ss\<rparr>))"

text \<open>\<^verbatim>\<open>is_included\<close>: some sub-manifest of the MoM lists the bundle among its includes.\<close>

definition is_included :: "string \<Rightarrow> MoM \<Rightarrow> bool" where
  "is_included bundle_name mom =
     list_ex (\<lambda>bundle. list_ex (\<lambda>name. name = bundle_name) (includes bundle)) (submanifests mom)"

section \<open>Manifest graph resolution\<close>

text \<open>
  Modelled from the spec: \<^verbatim>\<open>recurse_manifest\<close> is not among the sources. With a bundle
  name it returns the singleton list of that bundle's sub-manifest. Without one it loads the
  sub-manifest of every subscribed bundle and of every bundle referenced through includes,
  in discovery order; a bundle already in the result is not loaded again; a sub-manifest
  that cannot be loaded fails the whole resolution. The empty list is the null result.
\<close>

function recurse_walk ::
  "env \<Rightarrow> 'a manifest_scheme \<Rightarrow> string list \<Rightarrow> (string \<times> manifest) list \<Rightarrow> state
     \<Rightarrow> (string \<times> manifest) list option \<times> state" where
  "recurse_walk env mom [] found st = (Some found, st)"
| "recurse_walk env mom (b # work) found st =
     (if b \<in> set (map fst found) then recurse_walk env mom work found st
      else (case search_bundle_in_manifest mom b of
              None \<Rightarrow> (None, st)
            | Some p \<Rightarrow>
                (case load_manifest env p st of
                   (None, st1) \<Rightarrow> (None, st1)
                 | (Some m, st1) \<Rightarrow>
                     recurse_walk env mom (work @ includes m) (found @ [(b, m)]) st1)))"
  by pat_completeness auto

termination recurse_walk
proof -
  have less: "card (filename ` set (manifests mom) - set (map fst (found @ [(b, m)])))
                < card (filename ` set (manifests mom) - set (map fst found))"
    if "search_bundle_in_manifest mom b = Some p" and "b \<notin> set (map fst found)"
    for mom :: "'a manifest_scheme" and b p and found :: "(string \<times> manifest) list" and m
  proof (rule psubset_card_mono)
    have "b \<in> filename ` set (manifests mom)"
      using that(1) by (auto simp: search_bundle_in_manifest_def find_Some_iff)
    with that(2)
    show "filename ` set (manifests mom) - set (map fst (found @ [(b, m)]))
            \<subset> filename ` set (manifests mom) - set (map fst found)"
      by auto
  qed simp
  show ?thesis
    by (relation "measures [\<lambda>(env, mom, work, found, st).
                             card (filename ` set (manifests mom) - set (map fst found)),
                           \<lambda>(env, mom, work, found, st). length work]")
       (use less in \<open>simp_all del: map_append\<close>)
qed

definition recurse_manifest ::
  "env \<Rightarrow> 'a manifest_scheme \<Rightarrow> string option \<Rightarrow> state \<Rightarrow> manifest list \<times> state" where
  "recurse_manifest env mom cname st =
     (case cname of
        Some b \<Rightarrow>
          (case search_bundle_in_manifest mom b of
             None \<Rightarrow> ([], st)
           | Some p \<Rightarrow>
               (case load_manifest env p st of
                  (None, st1) \<Rightarrow> ([], st1)
                | (Some m, st1) \<Rightarrow> ([m], st1)))
      | None \<Rightarrow>
          (case recurse_walk env mom (map sub_component (subs st)) [] st of
             (None, st1) \<Rightarrow> ([], st1)
           | (Some found, st1) \<Rightarrow> (map snd found, st1)))"

text \<open>
  \<^verbatim>\<open>load_bundle_manifest\<close>: reloads the MoM of the version and resolves the one bundle;
  the second component is the sub-manifest stored through the out parameter.
\<close>

definition load_bundle_manifest ::
  "env \<Rightarrow> string \<Rightarrow> int \<Rightarrow> state \<Rightarrow> retcode \<times> manifest option \<times> state" where
  "load_bundle_manifest env bundle_name ver st =
     (case load_mom env ver st of
        (None, st1) \<Rightarrow> (EMOM_NOTFOUND, None, st1)
      | (Some mom, st1) \<Rightarrow>
          (case recurse_manifest env mom (Some bundle_name) st1 of
             ([], st2) \<Rightarrow> (ERECURSE_MANIFEST, None, st2)
           | (m # sub_list, st2) \<Rightarrow> (EXIT_SUCCESS, Some m, st2)))"

section \<open>Listing the installable bundles\<close>

text \<open>
  \<^verbatim>\<open>list_installable_bundles\<close>. The variable \<open>ret\<close> holds the result of \<^verbatim>\<open>swupd_init\<close> and is
  what the function returns when the MoM cannot be loaded.
\<close>

definition list_installable_bundles :: "env \<Rightarrow> state \<Rightarrow> retcode \<times> state" where
  "list_installable_bundles env st =
     (let ret = swupd_init env in
      if ret \<noteq> EXIT_SUCCESS then (ret, st)
      else if \<not> check_network env then (EXIT_FAILURE, st)
      else let current_version = get_current_version env in
        if current_version < 0 then (ECURRENT_VERSION, st)
        else (case load_mom env current_version st of
                (None, st1) \<Rightarrow> (ret, st1)
              | (Some mom, st1) \<Rightarrow>
                  (EXIT_SUCCESS, emit (map (\<lambda>f. Print (filename f)) (manifests mom)) st1)))"

section \<open>Removing a bundle\<close>

text \<open>
  Modelled from the spec: \<^verbatim>\<open>remove_files_in_manifest_from_fs\<close> and \<^verbatim>\<open>rm_bundle_file\<close> are not
  among the sources. The first walks the file list and unlinks each path, the second
  removes the marker file of the bundle.
\<close>

definition remove_files_in_manifest_from_fs :: "file_entry list \<Rightarrow> state \<Rightarrow> state" where
  "remove_files_in_manifest_from_fs fs st = emit (map (\<lambda>f. Unlink (filename f)) fs) st"

definition rm_bundle_file :: "string \<Rightarrow> state \<Rightarrow> state" where
  "rm_bundle_file bundle_name st = emit [RmBundleFile bundle_name] st"

text \<open>
  \<^verbatim>\<open>remove_bundle\<close>, in two parts. The first part runs from the start of the function to the
  resolution of the sub-manifests of the bundles that stay: it yields the error the
  function returns, or the current version and the MoM with its sub-manifests.
\<close>

definition remove_bundle_resolve ::
  "env \<Rightarrow> string \<Rightarrow> state \<Rightarrow> (retcode + int \<times> MoM) \<times> state" where
  "remove_bundle_resolve env bundle_name st =
     (let ret = swupd_init env in
      if ret \<noteq> EXIT_SUCCESS then (Inl ret, st)
      else if bundle_name = ''os-core'' then (Inl EBUNDLE_NOT_TRACKED, st)
      else if \<not> is_tracked_bundle env bundle_name then (Inl EBUNDLE_NOT_TRACKED, st)
      else let current_version = get_current_version env in
        if current_version < 0 then (Inl ECURRENT_VERSION, st)
        else (case load_mom env current_version st of
                (None, st1) \<Rightarrow> (Inl EMOM_NOTFOUND, st1)
              | (Some current_mom, st1) \<Rightarrow>
                  if search_bundle_in_manifest current_mom bundle_name = None
                  then (Inl EBUNDLE_REMOVE, st1)
                  else (case unload_tracked_bundle bundle_name (read_subscriptions_alt env st1) of
                          (ret, st2) \<Rightarrow>
                            if ret \<noteq> EXIT_SUCCESS then (Inl ret, st2)
                            else (case recurse_manifest env current_mom None
                                         (subscription_versions_from_MoM current_mom st2) of
                                    (subm, st3) \<Rightarrow>
                                      if subm = [] then (Inl ERECURSE_MANIFEST, st3)
                                      else (Inr (current_version,
                                                 current_mom\<lparr>submanifests := subm\<rparr>), st3)))))"

text \<open>
  The second part runs from the check of the includes to the end: the retain set is
  consolidated, the manifest of the bundle is loaded, its files are sorted by name and
  de-duplicated against the retain set, what is left is unlinked and the marker removed.
\<close>

definition remove_bundle_commit ::
  "env \<Rightarrow> string \<Rightarrow> int \<Rightarrow> MoM \<Rightarrow> state \<Rightarrow> retcode \<times> state" where
  "remove_bundle_commit env bundle_name current_version current_mom st =
     (if is_included bundle_name current_mom then (EBUNDLE_REMOVE, st)
      else let mom1 = current_mom\<lparr>files :=
                        consolidate_files (files_from_bundles (submanifests current_mom))\<rparr> in
        (case load_bundle_manifest env bundle_name current_version st of
           (ret, bm, st1) \<Rightarrow>
             (case bm of
                None \<Rightarrow> (ret, st1)
              | Some bundle_manifest \<Rightarrow>
                  if ret \<noteq> EXIT_SUCCESS then (ret, st1)
                  else let sorted_files = file_sort_filename (files bundle_manifest);
                           left_files = deduplicate_files sorted_files (files mom1)
                       in (EXIT_SUCCESS,
                           rm_bundle_file bundle_name
                             (remove_files_in_manifest_from_fs left_files st1)))))"

definition remove_bundle :: "env \<Rightarrow> string \<Rightarrow> state \<Rightarrow> retcode \<times> state" where
  "remove_bundle env bundle_name st =
     (case remove_bundle_resolve env bundle_name st of
        (Inl ret, st1) \<Rightarrow> (ret, st1)
      | (Inr (current_version, current_mom), st1) \<Rightarrow>
          remove_bundle_commit env bundle_name current_version current_mom st1)"

section \<open>Adding subscriptions\<close>

text \<open>
  The loop at the label \<^verbatim>\<open>retry_manifest_download\<close> of \<^verbatim>\<open>add_subscriptions\<close>: the manifest of
  the pointer is loaded; a failed load is retried, after \<^verbatim>\<open>increment_retries\<close>, as long as
  \<open>retries < MAX_TRIES\<close>. The counters \<open>retries\<close> and \<open>timeout\<close> are locals of the
  enclosing call and are handed back to it. Both are C ints, taken as integers here: the
  code computes the same values as long as the doubled timeout fits an int, which it does
  for the first 26 retries from the initial 10 seconds.
\<close>

function retry_manifest_download ::
  "env \<Rightarrow> file_entry \<Rightarrow> int \<times> int \<Rightarrow> state \<Rightarrow> manifest option \<times> (int \<times> int) \<times> state" where
  "retry_manifest_download env file rt st =
     (case load_manifest env file st of
        (Some m, st1) \<Rightarrow> (Some m, rt, st1)
      | (None, st1) \<Rightarrow>
          if fst rt < MAX_TRIES env
          then (case increment_retries env rt st1 of
                  (rt2, st2) \<Rightarrow> retry_manifest_download env file rt2 st2)
          else (None, rt, st1))"
  by pat_completeness auto

termination retry_manifest_download
  by (relation "measure (\<lambda>(env, file, rt, st). nat (MAX_TRIES env - fst rt))")
     (auto simp: increment_retries_def split: prod.splits)

declare retry_manifest_download.simps [simp del]

text \<open>
  \<^verbatim>\<open>add_subscriptions\<close>. The first argument bounds the depth of the recursion of the C
  function on the includes of a manifest (the stack it may use): with none left the result
  is \<open>None\<close>. The triple holds the locals \<open>new_bundles\<close>, \<open>retries\<close> and \<open>timeout\<close>, which are
  set once at the entry of a call, before its loop over the bundles. The result is the
  tristate of the code: \<open>-1\<close> for an error, \<open>1\<close> for no new subscription, \<open>0\<close> for a new one.
  A manifest without includes makes no recursive call and leaves \<open>new_bundles\<close> as it is,
  as a recursive result of \<open>1\<close> does.
\<close>

fun add_subscriptions_loop ::
  "nat \<Rightarrow> env \<Rightarrow> MoM \<Rightarrow> string list \<Rightarrow> bool \<times> int \<times> int \<Rightarrow> state \<Rightarrow> (int \<times> state) option" where
  "add_subscriptions_loop fuel env mom [] (new_bundles, rt) st =
     Some (if new_bundles then 0 else 1, st)"
| "add_subscriptions_loop fuel env mom (bundle # iter) (new_bundles, rt) st =
     (case search_bundle_in_manifest mom bundle of
        None \<Rightarrow> add_subscriptions_loop fuel env mom iter (new_bundles, rt) st
      | Some file \<Rightarrow>
          (case retry_manifest_download env file rt st of
             (None, rt1, st1) \<Rightarrow> Some (- 1, st1)
           | (Some m, rt1, st1) \<Rightarrow>
               (case (if includes m \<noteq> []
                      then (case fuel of
                              0 \<Rightarrow> None
                            | Suc n \<Rightarrow> add_subscriptions_loop n env mom (includes m) (False, 0, 10) st1)
                      else Some (1, st1)) of
                  None \<Rightarrow> None
                | Some (ret, st2) \<Rightarrow>
                    if ret = - 1 then Some (- 1, st2)
                    else if is_tracked_bundle env bundle \<or> component_subscribed (subs st2) bundle
                    then add_subscriptions_loop fuel env mom iter (new_bundles \<or> ret = 0, rt1) st2
                    else add_subscriptions_loop fuel env mom iter (True, rt1)
                           (create_and_append_subscription bundle st2))))"

definition add_subscriptions ::
  "nat \<Rightarrow> env \<Rightarrow> string list \<Rightarrow> int \<Rightarrow> MoM \<Rightarrow> state \<Rightarrow> (int \<times> state) option" where
  "add_subscriptions fuel env bundles current_version mom st =
     add_subscriptions_loop fuel env mom bundles (False, 0, 10) st"

section \<open>Installing bundles\<close>

text \<open>
  Modelled from the spec: \<^verbatim>\<open>do_staging\<close> and \<^verbatim>\<open>verify_fix_path\<close> are not among the sources.
  Staging a file that succeeds records the staged path in the entry. Repairing a path that
  succeeds leaves the staged copy recorded in the entry of that path in the consolidated
  files of the MoM, not in the entry of the target set.
\<close>

definition do_staging :: "env \<Rightarrow> file_entry \<Rightarrow> state \<Rightarrow> bool \<times> file_entry \<times> state" where
  "do_staging env file st =
     (if staging_ok env (clock st) file
      then (True, file\<lparr>staging := Some (staged_path env file)\<rparr>,
            tick (emit [DoStaging (filename file) True] st))
      else (False, file, tick (emit [DoStaging (filename file) False] st)))"

definition verify_fix_path :: "env \<Rightarrow> string \<Rightarrow> MoM \<Rightarrow> state \<Rightarrow> bool \<times> MoM \<times> state" where
  "verify_fix_path env path mom st =
     (if fix_path_ok env (clock st) path
      then (True,
            mom\<lparr>files := map (\<lambda>g. if filename g = path
                                  then g\<lparr>staging := Some (staged_path env g)\<rparr> else g)
                            (files mom)\<rparr>,
            tick (emit [VerifyFixPath path True] st))
      else (False, mom, tick (emit [VerifyFixPath path False] st)))"

definition skipped :: "env \<Rightarrow> file_entry \<Rightarrow> bool" where
  "skipped env file = (is_deleted file \<or> do_not_update file \<or> ignore env file)"

text \<open>
  The first loop of step 4 of \<^verbatim>\<open>install_bundles\<close>: every file of the target set that is not
  skipped is staged, through a repair of its path when staging fails; the first file that
  cannot be staged ends the loop with a failure.
\<close>

fun stage_files ::
  "env \<Rightarrow> file_entry list \<Rightarrow> MoM \<Rightarrow> state \<Rightarrow> bool \<times> file_entry list \<times> MoM \<times> state" where
  "stage_files env [] mom st = (True, [], mom, st)"
| "stage_files env (file # iter) mom st =
     (if skipped env file
      then (case stage_files env iter mom st of
              (ok, fs, mom2, st2) \<Rightarrow> (ok, file # fs, mom2, st2))
      else (case do_staging env file st of
              (staged, file1, st1) \<Rightarrow>
                (case (if staged then (True, mom, st1)
                       else verify_fix_path env (filename file) mom st1) of
                   (ok, mom1, st2) \<Rightarrow>
                     if \<not> ok then (False, file1 # iter, mom1, st2)
                     else (case stage_files env iter mom1 st2 of
                             (ok3, fs, mom3, st3) \<Rightarrow> (ok3, file1 # fs, mom3, st3)))))"

text \<open>
  The second loop: every file that is not skipped is renamed to its final path; an entry
  without a staged path is looked up again by name in the files of the MoM, and the result
  of the lookup is what \<^verbatim>\<open>rename_staged_file_to_final\<close> is applied to.
\<close>

fun rename_files :: "env \<Rightarrow> file_entry list \<Rightarrow> MoM \<Rightarrow> state \<Rightarrow> state" where
  "rename_files env [] mom st = st"
| "rename_files env (file # iter) mom st =
     (if skipped env file then rename_files env iter mom st
      else rename_files env iter mom
             (emit [Rename (if staging file = None
                            then search_file_in_manifest mom (filename file)
                            else Some file)] st))"

text \<open>Steps 4 and 5: both loops, then \<^verbatim>\<open>sync\<close>, then the scripts.\<close>

definition install_files :: "env \<Rightarrow> file_entry list \<Rightarrow> MoM \<Rightarrow> state \<Rightarrow> retcode \<times> state" where
  "install_files env to_install_files mom st =
     (case stage_files env to_install_files mom st of
        (ok, fs, mom1, st1) \<Rightarrow>
          if \<not> ok then (EBUNDLE_INSTALL, st1)
          else (EXIT_SUCCESS, emit [Sync, RunScripts] (rename_files env fs mom1 st1)))"

text \<open>
  Steps 1 to 3 of \<^verbatim>\<open>install_bundles\<close>: the subscriptions are added, the target set is
  resolved and consolidated, the packs are downloaded, the tracked bundles are loaded and
  the files of the MoM are consolidated. The result is the error of the function, or the
  target files and the MoM with its sub-manifests and files.
\<close>

definition install_resolve ::
  "nat \<Rightarrow> env \<Rightarrow> string list \<Rightarrow> int \<Rightarrow> MoM \<Rightarrow> state
     \<Rightarrow> ((retcode + file_entry list \<times> MoM) \<times> state) option" where
  "install_resolve fuel env bundles current_version mom st =
     (case add_subscriptions fuel env bundles current_version mom st of
        None \<Rightarrow> None
      | Some (ret, st1) \<Rightarrow>
          Some (if ret \<noteq> 0 then (Inl EBUNDLE_INSTALL, st1)
                else (case recurse_manifest env mom None (subscription_versions_from_MoM mom st1) of
                        (to_install_bundles, st2) \<Rightarrow>
                          if to_install_bundles = [] then (Inl ERECURSE_MANIFEST, st2)
                          else let to_install_files =
                                     consolidate_files (files_from_bundles to_install_bundles);
                                   st3 = emit [RmStagingDir, DownloadPacks] st2;
                                   st4 = subscription_versions_from_MoM mom
                                           (read_subscriptions_alt env st3)
                               in (case recurse_manifest env mom None st4 of
                                     (subm, st5) \<Rightarrow>
                                       if subm = [] then (Inl ERECURSE_MANIFEST, st5)
                                       else (Inr (to_install_files,
                                                  mom\<lparr>submanifests := subm,
                                                      files := consolidate_files
                                                                 (files_from_bundles subm)\<rparr>),
                                             st5)))))"

text \<open>\<^verbatim>\<open>install_bundles\<close>: the subscriptions are freed on every way out.\<close>

definition install_bundles ::
  "nat \<Rightarrow> env \<Rightarrow> string list \<Rightarrow> int \<Rightarrow> MoM \<Rightarrow> state \<Rightarrow> (retcode \<times> state) option" where
  "install_bundles fuel env bundles current_version mom st =
     (case install_resolve fuel env bundles current_version mom st of
        None \<Rightarrow> None
      | Some (Inl ret, st1) \<Rightarrow> Some (ret, free_subscriptions st1)
      | Some (Inr (to_install_files, mom1), st1) \<Rightarrow>
          (case install_files env to_install_files mom1 st1 of
             (ret, st2) \<Rightarrow> Some (ret, free_subscriptions st2)))"

text \<open>
  \<^verbatim>\<open>install_bundles_frontend\<close>: the bundle names are prepended one by one to the list handed
  to \<^verbatim>\<open>install_bundles\<close>, which reverses their order.
\<close>

definition install_bundles_frontend ::
  "nat \<Rightarrow> env \<Rightarrow> string list \<Rightarrow> state \<Rightarrow> (retcode \<times> state) option" where
  "install_bundles_frontend fuel env bundles st =
     (let ret = swupd_init env in
      if ret \<noteq> EXIT_SUCCESS then Some (ret, st)
      else let current_version = get_current_version env in
        if current_version < 0 then Some (ECURRENT_VERSION, st)
        else (case load_mom env current_version st of
                (None, st1) \<Rightarrow> Some (EMOM_NOTFOUND, st1)
              | (Some mom, st1) \<Rightarrow>
                  install_bundles fuel env (rev bundles) current_version mom st1))"

section \<open>Notions used to state the properties\<close>

text \<open>
  The events of one run of the retry loop for the bundle \<open>n\<close>: a load and a sleep for each
  retry, then the last load. The timeouts of the sleeps: each is twice the one before plus
  the jitter drawn when the retry is counted.
\<close>

definition retry_events :: "string \<Rightarrow> int list \<Rightarrow> event list" where
  "retry_events n ts = concat (map (\<lambda>t. [Load n, Sleep t]) ts) @ [Load n]"

fun backoff :: "env \<Rightarrow> int \<Rightarrow> nat \<Rightarrow> nat \<Rightarrow> int list" where
  "backoff env t c 0 = []"
| "backoff env t c (Suc k) = t # backoff env (t * 2 + jitter env (Suc c)) (Suc (Suc c)) k"

text \<open>
  The includes graph: the includes of the manifest published for the pointer of a bundle
  in the MoM, and the bundles reachable from a list of requested bundles.
\<close>

definition includes_of :: "env \<Rightarrow> MoM \<Rightarrow> string \<Rightarrow> string list" where
  "includes_of env mom b =
     (case search_bundle_in_manifest mom b of
        None \<Rightarrow> []
      | Some file \<Rightarrow> includes (manifest_content env file))"

inductive_set reachable :: "env \<Rightarrow> MoM \<Rightarrow> string list \<Rightarrow> string set"
  for env :: env and mom :: MoM and bundles :: "string list" where
  requested: "b \<in> set bundles \<Longrightarrow> b \<in> reachable env mom bundles"
| included: "b \<in> reachable env mom bundles \<Longrightarrow> i \<in> set (includes_of env mom b)
              \<Longrightarrow> i \<in> reachable env mom bundles"

text \<open>
  Kinds of events, and the extension of the trace from one state to a later one by events
  of one kind only.
\<close>

definition is_fetch :: "event \<Rightarrow> bool" where
  "is_fetch e = (case e of LoadMoM v \<Rightarrow> True | Load b \<Rightarrow> True | Sleep t \<Rightarrow> True | _ \<Rightarrow> False)"

definition is_prepare :: "event \<Rightarrow> bool" where
  "is_prepare e = (is_fetch e \<or> e = RmStagingDir \<or> e = DownloadPacks)"

definition is_staging :: "event \<Rightarrow> bool" where
  "is_staging e = (case e of DoStaging p ok \<Rightarrow> True | VerifyFixPath p ok \<Rightarrow> True | _ \<Rightarrow> False)"

definition is_rename :: "event \<Rightarrow> bool" where
  "is_rename e = (case e of Rename f \<Rightarrow> True | _ \<Rightarrow> False)"

definition extends :: "(event \<Rightarrow> bool) \<Rightarrow> state \<Rightarrow> state \<Rightarrow> bool" where
  "extends Q st st' = (\<exists>evs. trace st' = trace st @ evs \<and> list_all Q evs)"


text \<open>
  A list of resolved sub-manifests, each with the bundle name it was loaded for, holds
  what is published for the pointers of the MoM.
\<close>

definition published :: "env \<Rightarrow> 'a manifest_scheme \<Rightarrow> (string \<times> manifest) list \<Rightarrow> bool" where
  "published env mom found =
     (\<forall>(b, m)\<in>set found. \<exists>p. search_bundle_in_manifest mom b = Some p
                              \<and> m = manifest_content env p)"

section \<open>Example systems\<close>

text \<open>Small concrete systems on which the theorems below are exercised.\<close>

definition mk_file :: "string \<Rightarrow> string \<Rightarrow> int \<Rightarrow> file_entry" where
  "mk_file p h v = \<lparr>filename = p, hash = h, last_change = v, is_deleted = False,
                     do_not_update = False, staging = None\<rparr>"

definition mk_manifest :: "string \<Rightarrow> file_entry list \<Rightarrow> string list \<Rightarrow> manifest" where
  "mk_manifest c fs incs = \<lparr>component = c, version = 10, files = fs, includes = incs, manifests = []\<rparr>"

definition editors_files :: "file_entry list" where
  "editors_files = [mk_file ''/usr/bin/vi'' ''h2'' 10, mk_file ''/usr/bin/ed'' ''h1'' 10]"

definition devtools_sharing :: manifest where
  "devtools_sharing =
     mk_manifest ''devtools'' [mk_file ''/usr/bin/gcc'' ''h3'' 10, mk_file ''/usr/bin/ed'' ''h1'' 10] []"

definition twice_listed :: "file_entry list" where
  "twice_listed = [mk_file ''/usr/bin/ed'' ''h1'' 10, mk_file ''/usr/bin/ed'' ''h0'' 9]"

text \<open>
  A system at version 10 with the bundles \<open>os-core\<close>, \<open>editors\<close> and \<open>devtools\<close>, all three
  installed; \<open>editors\<close> includes \<open>os-core\<close>, \<open>devtools\<close> includes \<open>os-core\<close> and \<open>editors\<close>.
  Every collaborator succeeds.
\<close>

definition ptr :: "string \<Rightarrow> file_entry" where
  "ptr n = mk_file n (''hash-'' @ n) 10"

definition ex_mom :: MoM where
  "ex_mom = \<lparr>component = ''MoM'', version = 10, files = [], includes = [],
             manifests = [ptr ''os-core'', ptr ''editors'', ptr ''devtools''],
             submanifests = []\<rparr>"

definition ex_content :: "file_entry \<Rightarrow> manifest" where
  "ex_content p =
     (if filename p = ''editors''
      then mk_manifest ''editors'' [mk_file ''/usr/bin/ed'' ''h1'' 10] [''os-core'']
      else if filename p = ''devtools''
      then mk_manifest ''devtools'' [mk_file ''/usr/bin/gcc'' ''h3'' 10] [''os-core'', ''editors'']
      else mk_manifest ''os-core'' [mk_file ''/usr/bin/sh'' ''h0'' 10] [])"

definition ex_env :: env where
  "ex_env = \<lparr>MAX_TRIES = 3, swupd_init = EXIT_SUCCESS, check_network = True,
             get_current_version = 10, mom_fetch = (\<lambda>t v. Some ex_mom),
             manifest_available = (\<lambda>t p. True), manifest_content = ex_content,
             jitter = (\<lambda>t. 0), tracked_bundles = [''os-core'', ''editors'', ''devtools''],
             ignore = (\<lambda>f. False), staging_ok = (\<lambda>t f. True), fix_path_ok = (\<lambda>t p. True),
             staged_path = (\<lambda>f. ''/var/lib/swupd/staged/'' @ hash f)\<rparr>"

definition st0 :: state where
  "st0 = \<lparr>subs = [], clock = 0, trace = []\<rparr>"

lemmas ex_defs = ex_env_def ex_mom_def ex_content_def ptr_def mk_file_def mk_manifest_def st0_def

lemmas step_defs = load_mom_def load_manifest_def emit_def tick_def
  search_bundle_in_manifest_def search_file_in_manifest_def is_tracked_bundle_def
  component_subscribed_def create_and_append_subscription_def read_subscriptions_alt_def
  subscription_versions_from_MoM_def free_subscriptions_def unload_tracked_bundle_def
  is_included_def recurse_manifest_def load_bundle_manifest_def

text \<open>
  Two variations. In the first no manifest has includes, the manifest of \<open>editors\<close> can be
  fetched from the seventh collaborator call on, and no other manifest can be fetched. In
  the second \<open>editors\<close> and \<open>devtools\<close> include each other. The rank orders the bundles of
  the first system along their includes.
\<close>

definition flaky_env :: env where
  "flaky_env = ex_env\<lparr>manifest_content := (\<lambda>p. mk_manifest (filename p) [] []),
                       manifest_available := (\<lambda>t p. filename p = ''editors'' \<and> 6 \<le> t)\<rparr>"

definition cyclic_env :: env where
  "cyclic_env = ex_env\<lparr>manifest_content :=
     (\<lambda>p. mk_manifest (filename p) []
            [if filename p = ''editors'' then ''devtools'' else ''editors''])\<rparr>"

definition ex_rank :: "string \<Rightarrow> nat" where
  "ex_rank b = (if b = ''devtools'' then 2 else if b = ''editors'' then 1 else 0)"

lemmas run_defs = add_subscriptions_def retry_manifest_download.simps increment_retries_def

text \<open>
  A third variation: only \<open>os-core\<close> is installed, and staging \<open>/usr/bin/gcc\<close> fails, so
  that the file is staged by the repair of its path. The state is the one the installation
  of \<open>devtools\<close> ends in.
\<close>

definition fresh_env :: env where
  "fresh_env = ex_env\<lparr>tracked_bundles := [''os-core''],
                       staging_ok := (\<lambda>t f. filename f \<noteq> ''/usr/bin/gcc'')\<rparr>"

definition staged_file :: "string \<Rightarrow> string \<Rightarrow> file_entry" where
  "staged_file p h = (mk_file p h 10)\<lparr>staging := Some (''/var/lib/swupd/staged/'' @ h)\<rparr>"

definition fresh_final :: state where
  "fresh_final =
     \<lparr>subs = [], clock = 14,
        trace = [Load ''devtools'', Load ''os-core'', Load ''editors'', Load ''os-core'',
                 Load ''editors'', Load ''devtools'', Load ''os-core'',
                 RmStagingDir, DownloadPacks,
                 Load ''editors'', Load ''devtools'', Load ''os-core'']
              @ [DoStaging ''/usr/bin/ed'' True, DoStaging ''/usr/bin/gcc'' False,
                 VerifyFixPath ''/usr/bin/gcc'' True, DoStaging ''/usr/bin/sh'' True]
              @ [Rename (Some (staged_file ''/usr/bin/ed'' ''h1'')),
                 Rename (Some (staged_file ''/usr/bin/gcc'' ''h3'')),
                 Rename (Some (staged_file ''/usr/bin/sh'' ''h0''))]
              @ [Sync, RunScripts]\<rparr>"

lemmas install_defs = install_bundles_def install_resolve_def install_files_def
  do_staging_def verify_fix_path_def skipped_def
  consolidate_files_def files_from_bundles_def consolidate_key_def

text \<open>
  Two more variations, for the removal of \<open>editors\<close>: \<open>devtools\<close> does not include
  \<open>editors\<close> but lists \<open>/usr/bin/ed\<close> too; in the second, the manifest of \<open>editors\<close> names
  \<open>/usr/bin/ed\<close> twice.
\<close>

definition sharing_env :: env where
  "sharing_env = ex_env\<lparr>manifest_content :=
     (\<lambda>p. if filename p = ''editors'' then mk_manifest ''editors'' editors_files [''os-core'']
           else if filename p = ''devtools'' then devtools_sharing
           else mk_manifest ''os-core'' [mk_file ''/usr/bin/sh'' ''h0'' 10] [])\<rparr>"

definition twice_env :: env where
  "twice_env = sharing_env\<lparr>manifest_content :=
     (\<lambda>p. if filename p = ''editors'' then mk_manifest ''editors'' twice_listed [''os-core'']
           else manifest_content sharing_env p)\<rparr>"


lemmas remove_defs = remove_bundle_def remove_bundle_resolve_def remove_bundle_commit_def
  remove_files_in_manifest_from_fs_def rm_bundle_file_def file_sort_filename_def
  consolidate_files_def files_from_bundles_def consolidate_key_def

section \<open>Consolidation and de-duplication: properties\<close>

lemma set_keep_first_subset: "set (keep_first fs) \<subseteq> set fs"
  by (induction fs rule: keep_first.induct) auto

lemma filename_keep_first: "filename ` set (keep_first fs) = filename ` set fs"
  by (induction fs rule: keep_first.induct) auto

lemma distinct_keep_first:
  "sorted (map filename fs) \<Longrightarrow> distinct (map filename (keep_first fs))"
proof (induction fs rule: keep_first.induct)
  case (3 f g fs)
  show ?case
  proof (cases "filename f = filename g")
    case True
    with 3 show ?thesis by simp
  next
    case False
    have "filename f \<notin> filename ` set (g # fs)"
      using "3.prems" False by (auto simp: less_le)
    then have "filename f \<notin> filename ` set (keep_first (g # fs))"
      using set_keep_first_subset[of "g # fs"] by blast
    with 3 False show ?thesis by simp
  qed
qed simp_all

lemma sorted_consolidate_key:
  "sorted (map consolidate_key fs) \<Longrightarrow> sorted (map filename fs)"
  by (induction fs) (auto simp: consolidate_key_def less_eq_prod_def)

lemma filename_consolidate_files: "filename ` set (consolidate_files fs) = filename ` set fs"
  by (simp add: consolidate_files_def filename_keep_first)

text \<open>
  Claim C5. For every input file list, the consolidated file list (sorted by path
  ascending, version descending, deleted last, then the first entry of each distinct path
  kept) contains each path at most once.
\<close>

theorem consolidate_files_distinct_paths: "distinct (map filename (consolidate_files fs))"
  unfolding consolidate_files_def
  by (rule distinct_keep_first, rule sorted_consolidate_key) simp

lemma set_deduplicate_files_subset: "set (deduplicate_files bs rs) \<subseteq> set bs"
  by (induction bs rs rule: deduplicate_files.induct) auto








section \<open>Removing and listing: properties\<close>


lemma remove_editors_shared_file:
  "remove_bundle sharing_env ''editors'' st0
     = (EXIT_SUCCESS,
        \<lparr>subs = [\<lparr>sub_component = ''os-core'', sub_version = 10\<rparr>,
                  \<lparr>sub_component = ''devtools'', sub_version = 10\<rparr>],
           clock = 5,
           trace = [LoadMoM 10, Load ''os-core'', Load ''devtools'', LoadMoM 10, Load ''editors'',
                    Unlink ''/usr/bin/vi'', RmBundleFile ''editors'']\<rparr>)"
  by (simp add: remove_defs sharing_env_def editors_files_def devtools_sharing_def ex_defs step_defs)

lemma remove_editors_twice_listed:
  "remove_bundle twice_env ''editors'' st0
     = (EXIT_SUCCESS,
        \<lparr>subs = [\<lparr>sub_component = ''os-core'', sub_version = 10\<rparr>,
                  \<lparr>sub_component = ''devtools'', sub_version = 10\<rparr>],
           clock = 5,
           trace = [LoadMoM 10, Load ''os-core'', Load ''devtools'', LoadMoM 10, Load ''editors'',
                    RmBundleFile ''editors'']\<rparr>)"
  by (simp add: remove_defs twice_env_def sharing_env_def twice_listed_def devtools_sharing_def
      ex_defs step_defs)


text \<open>What reaching the check of the includes means.\<close>

lemma remove_bundle_resolve_Inr:
  assumes "remove_bundle_resolve env bundle_name st = (Inr (current_version, current_mom), st1)"
  shows "swupd_init env = EXIT_SUCCESS \<and> bundle_name \<noteq> ''os-core''
       \<and> is_tracked_bundle env bundle_name
       \<and> current_version = get_current_version env \<and> 0 \<le> current_version
       \<and> (\<exists>mom. mom_fetch env (clock st) current_version = Some mom
              \<and> search_bundle_in_manifest mom bundle_name \<noteq> None
              \<and> current_mom = mom\<lparr>submanifests := submanifests current_mom\<rparr>)
       \<and> submanifests current_mom \<noteq> []"
  using assms
  by (auto simp: remove_bundle_resolve_def Let_def load_mom_def split: if_splits option.splits prod.splits)

lemma trace_read_subscriptions_dir [simp]: "trace (read_subscriptions_dir ns st) = trace st"
  by (induction ns arbitrary: st) (simp_all add: create_and_append_subscription_def)

lemma clock_read_subscriptions_dir [simp]: "clock (read_subscriptions_dir ns st) = clock st"
  by (induction ns arbitrary: st) (simp_all add: create_and_append_subscription_def)

lemma mutates_load_manifest:
  "load_manifest env p st = (r, st1) \<Longrightarrow> filter mutates (trace st1) = filter mutates (trace st)"
  by (auto simp: load_manifest_def emit_def tick_def mutates_def)

lemma mutates_load_mom:
  "load_mom env v st = (r, st1) \<Longrightarrow> filter mutates (trace st1) = filter mutates (trace st)"
  by (auto simp: load_mom_def emit_def tick_def mutates_def)

lemma mutates_recurse_walk:
  "recurse_walk env mom work found st = (r, st1) \<Longrightarrow>
   filter mutates (trace st1) = filter mutates (trace st)"
proof (induction env mom work found st rule: recurse_walk.induct)
  case (1 env mom found st)
  then show ?case by simp
next
  case (2 env mom b work found st)
  then show ?case
    by (auto split: if_splits option.splits prod.splits dest: mutates_load_manifest)
qed

lemma mutates_recurse_manifest:
  "recurse_manifest env mom cname st = (r, st1) \<Longrightarrow>
   filter mutates (trace st1) = filter mutates (trace st)"
  by (auto simp: recurse_manifest_def split: option.splits prod.splits
      dest: mutates_load_manifest mutates_recurse_walk)

lemma mutates_remove_bundle_resolve:
  assumes "remove_bundle_resolve env bundle_name st = (r, st1)"
  shows "filter mutates (trace st1) = filter mutates (trace st)"
proof -
  have sub: "trace (subscription_versions_from_MoM m s) = trace s" for m :: MoM and s
    by (simp add: subscription_versions_from_MoM_def)
  have unl: "unload_tracked_bundle n s = (x, s') \<Longrightarrow> trace s' = trace s" for n s x s'
    by (auto simp: unload_tracked_bundle_def split: prod.splits)
  show ?thesis
    using assms
    by (auto simp: remove_bundle_resolve_def Let_def read_subscriptions_alt_def sub
        split: if_splits option.splits prod.splits
        dest!: mutates_load_mom mutates_recurse_manifest unl)
qed

text \<open>
  Claim C2, as amended. For every remove(name) that reaches the check of the includes
  (initialisation succeeded, the name is not \<open>os-core\<close> and is tracked, the version and the
  MoM were obtained, the MoM lists the name, and the sub-manifests of the bundles that stay
  were resolved) and in which one of these sub-manifests lists the name among its includes,
  the operation returns \<open>EBUNDLE_REMOVE\<close> in the state the resolution left, and the resolution
  has changed nothing on disk: no file is unlinked and the marker is not removed.
\<close>

theorem remove_bundle_required:
  assumes "remove_bundle_resolve env bundle_name st = (Inr (current_version, current_mom), st1)"
    and "is_included bundle_name current_mom"
  shows "remove_bundle env bundle_name st = (EBUNDLE_REMOVE, st1)
       \<and> filter mutates (trace st1) = filter mutates (trace st)"
  using assms mutates_remove_bundle_resolve[OF assms(1)]
  by (simp add: remove_bundle_def remove_bundle_commit_def)

text \<open>
  The theorem at the sixth scenario: \<open>devtools\<close> includes \<open>editors\<close>, both are installed, and
  \<open>editors\<close> is to be removed.
\<close>

theorem remove_bundle_required_witness:
  "\<exists>current_version current_mom st1.
     remove_bundle_resolve ex_env ''editors'' st0 = (Inr (current_version, current_mom), st1)
   \<and> is_included ''editors'' current_mom
   \<and> remove_bundle ex_env ''editors'' st0 = (EBUNDLE_REMOVE, st1)
   \<and> filter mutates (trace st1) = []"
proof -
  obtain r st1 where r: "remove_bundle_resolve ex_env ''editors'' st0 = (r, st1)"
    by (cases "remove_bundle_resolve ex_env ''editors'' st0")
  have "\<exists>m. r = Inr (10, m) \<and> is_included ''editors'' m"
    using r
    by (auto simp: remove_bundle_resolve_def ex_defs step_defs)
  then obtain m where m: "r = Inr (10, m)" "is_included ''editors'' m" by blast
  from remove_bundle_required[OF r[unfolded m(1)] m(2)] r m
  show ?thesis by (auto simp: st0_def)
qed

text \<open>
  Claim C2 as stated fails where an earlier check rejects the removal: \<open>os-core\<close> is among
  the includes of the installed bundle \<open>editors\<close>, and its removal is rejected with
  \<open>EBUNDLE_NOT_TRACKED\<close> before any manifest is resolved.
\<close>

theorem remove_bundle_required_counterexample:
  "''editors'' \<in> set (tracked_bundles ex_env)
   \<and> ''os-core'' \<in> set (includes (manifest_content ex_env (ptr ''editors'')))
   \<and> remove_bundle ex_env ''os-core'' st0 = (EBUNDLE_NOT_TRACKED, st0)"
  by (simp add: remove_bundle_def remove_bundle_resolve_def ex_defs)

text \<open>
  Claim C3, as amended. Whenever the initialisation of the updater succeeds,
  remove("os-core") returns \<open>EBUNDLE_NOT_TRACKED\<close> whatever the tracked bundles, the
  version and the manifests are, and leaves the state as it was: nothing is loaded and no
  file is modified.
\<close>

theorem remove_os_core_not_tracked:
  "swupd_init env = EXIT_SUCCESS \<Longrightarrow>
   remove_bundle env ''os-core'' st = (EBUNDLE_NOT_TRACKED, st)"
  by (simp add: remove_bundle_def remove_bundle_resolve_def)

theorem remove_os_core_not_tracked_witness:
  "swupd_init ex_env = EXIT_SUCCESS
   \<and> remove_bundle ex_env ''os-core'' st0 = (EBUNDLE_NOT_TRACKED, st0)"
  using remove_os_core_not_tracked[of ex_env st0] by (simp add: ex_env_def)

text \<open>
  Claim C3 as stated fails when the initialisation fails: \<^verbatim>\<open>remove_bundle\<close> returns the
  result of \<^verbatim>\<open>swupd_init\<close> before it looks at the name.
\<close>

theorem remove_os_core_counterexample:
  "remove_bundle (ex_env\<lparr>swupd_init := EINIT\<rparr>) ''os-core'' st0 = (EINIT, st0)
   \<and> EINIT \<noteq> EBUNDLE_NOT_TRACKED"
  by (simp add: remove_bundle_def remove_bundle_resolve_def ex_env_def)

text \<open>
  When the MoM cannot be loaded, \<^verbatim>\<open>remove_bundle\<close> and \<^verbatim>\<open>install_bundles_frontend\<close> return
  \<open>EMOM_NOTFOUND\<close>.
\<close>

lemma remove_bundle_mom_missing:
  assumes "swupd_init env = EXIT_SUCCESS" "bundle_name \<noteq> ''os-core''"
    "is_tracked_bundle env bundle_name" "0 \<le> get_current_version env"
    "mom_fetch env (clock st) (get_current_version env) = None"
  shows "remove_bundle env bundle_name st
           = (EMOM_NOTFOUND, tick (emit [LoadMoM (get_current_version env)] st))"
  using assms by (simp add: remove_bundle_def remove_bundle_resolve_def load_mom_def)

lemma install_bundles_frontend_mom_missing:
  assumes "swupd_init env = EXIT_SUCCESS" "0 \<le> get_current_version env"
    "mom_fetch env (clock st) (get_current_version env) = None"
  shows "install_bundles_frontend fuel env bundles st
           = Some (EMOM_NOTFOUND, tick (emit [LoadMoM (get_current_version env)] st))"
  using assms by (simp add: install_bundles_frontend_def load_mom_def)

lemma list_installable_bundles_mom_missing_any:
  assumes "swupd_init env = EXIT_SUCCESS" "check_network env" "0 \<le> get_current_version env"
    "mom_fetch env (clock st) (get_current_version env) = None"
  shows "list_installable_bundles env st
           = (EXIT_SUCCESS, tick (emit [LoadMoM (get_current_version env)] st))"
  using assms by (simp add: list_installable_bundles_def load_mom_def)

text \<open>
  Claim C7 fails for the list operation. With initialisation, network and version in
  order and a MoM that cannot be loaded, \<^verbatim>\<open>list_installable_bundles\<close> returns the value of
  \<open>ret\<close>, which is the \<open>0\<close> that \<^verbatim>\<open>swupd_init\<close> returned, not \<open>EMOM_NOTFOUND\<close>.
\<close>

theorem list_installable_bundles_mom_missing:
  "list_installable_bundles (ex_env\<lparr>mom_fetch := (\<lambda>t v. None)\<rparr>) st0
     = (EXIT_SUCCESS, \<lparr>subs = [], clock = 1, trace = [LoadMoM 10]\<rparr>)"
  by (simp add: list_installable_bundles_def ex_defs step_defs)

section \<open>Adding subscriptions: properties\<close>

lemma retry_manifest_download_run:
  assumes "retry_manifest_download env p rt st = (res, rt', st')"
  shows "\<exists>k. fst rt' = fst rt + int k
           \<and> (0 < k \<longrightarrow> fst rt' \<le> MAX_TRIES env)
           \<and> trace st' = trace st @ retry_events (filename p) (backoff env (snd rt) (clock st) k)
           \<and> clock st' = clock st + 2 * k + 1
           \<and> subs st' = subs st
           \<and> (case res of
                 None \<Rightarrow> MAX_TRIES env \<le> fst rt'
                         \<and> \<not> manifest_available env (clock st + 2 * k) p
               | Some m \<Rightarrow> m = manifest_content env p
                         \<and> manifest_available env (clock st + 2 * k) p)"
  using assms
proof (induction env p rt st rule: retry_manifest_download.induct)
  case (1 env p rt st)
  show ?case
  proof (cases "manifest_available env (clock st) p")
    case True
    with "1.prems" show ?thesis
      by (subst (asm) retry_manifest_download.simps)
         (auto simp: load_manifest_def emit_def tick_def retry_events_def intro!: exI[of _ 0])
  next
    case False
    note unavailable = this
    show ?thesis
    proof (cases "fst rt < MAX_TRIES env")
      case False
      with unavailable "1.prems" show ?thesis
        by (subst (asm) retry_manifest_download.simps)
           (auto simp: load_manifest_def emit_def tick_def retry_events_def intro!: exI[of _ 0])
    next
      case True
      define st1 where "st1 = tick (emit [Load (filename p)] st)"
      define st2 where "st2 = tick (emit [Sleep (snd rt)] st1)"
      define rt2 where "rt2 = (fst rt + 1, snd rt * 2 + jitter env (clock st1))"
      have l: "load_manifest env p st = (None, st1)"
        using unavailable by (simp add: load_manifest_def st1_def)
      have i: "increment_retries env rt st1 = (rt2, st2)"
        by (simp add: increment_retries_def st2_def rt2_def split: prod.splits)
      have rec: "retry_manifest_download env p rt2 st2 = (res, rt', st')"
        using "1.prems" l i True by (subst (asm) retry_manifest_download.simps) simp
      from "1.IH"[OF l[symmetric] refl True i[symmetric] rec]
      obtain k where k: "fst rt' = fst rt2 + int k"
        "0 < k \<longrightarrow> fst rt' \<le> MAX_TRIES env"
        "trace st' = trace st2 @ retry_events (filename p) (backoff env (snd rt2) (clock st2) k)"
        "clock st' = clock st2 + 2 * k + 1" "subs st' = subs st2"
        "case res of
           None \<Rightarrow> MAX_TRIES env \<le> fst rt' \<and> \<not> manifest_available env (clock st2 + 2 * k) p
         | Some m \<Rightarrow> m = manifest_content env p \<and> manifest_available env (clock st2 + 2 * k) p"
        by auto
      have le: "fst rt' \<le> MAX_TRIES env"
      proof (cases k)
        case 0
        with k(1) True show ?thesis by (simp add: rt2_def)
      next
        case (Suc j)
        with k(2) show ?thesis by simp
      qed
      have c2: "clock st2 = Suc (Suc (clock st))" "clock st1 = Suc (clock st)"
        "trace st2 = trace st @ [Load (filename p), Sleep (snd rt)]" "subs st2 = subs st"
        by (simp_all add: st2_def st1_def tick_def emit_def)
      show ?thesis
        using k le c2
        by (intro exI[of _ "Suc k"]) (auto simp: retry_events_def rt2_def split: option.splits)
    qed
  qed
qed


lemma retry_manifest_download_Some:
  "retry_manifest_download env p rt st = (Some m, rt1, st1) \<Longrightarrow>
   m = manifest_content env p \<and> subs st1 = subs st"
  using retry_manifest_download_run[of env p rt st "Some m" rt1 st1] by auto

lemma retry_manifest_download_subs:
  "retry_manifest_download env p rt st = (res, rt1, st1) \<Longrightarrow> subs st1 = subs st"
  using retry_manifest_download_run[of env p rt st res rt1 st1] by auto

lemma includes_of_Some:
  "search_bundle_in_manifest mom b = Some p \<Longrightarrow>
   includes_of env mom b = includes (manifest_content env p)"
  by (simp add: includes_of_def)

lemma add_subscriptions_loop_returns:
  assumes rank: "\<And>b i. i \<in> set (includes_of env mom b) \<Longrightarrow> rk i < (rk b :: nat)"
  shows "\<forall>b\<in>set bundles. rk b \<le> fuel \<Longrightarrow>
         add_subscriptions_loop fuel env mom bundles ls st \<noteq> None"
  using rank
proof (induction fuel env mom bundles ls st rule: add_subscriptions_loop.induct)
  case (1 fuel env mom new_bundles rt st)
  then show ?case by simp
next
  case (2 fuel env mom b iter nb rt st)
  note rank = "2.prems"(2)
  have iter: "\<forall>b\<in>set iter. rk b \<le> fuel" using "2.prems"(1) by simp
  show ?case
  proof (cases "search_bundle_in_manifest mom b")
    case None
    with "2.IH"(1) iter rank show ?thesis by simp
  next
    case (Some p)
    obtain res rt1 st1 where r: "retry_manifest_download env p rt st = (res, rt1, st1)"
      by (metis prod_cases3)
    show ?thesis
    proof (cases res)
      case None
      with Some r show ?thesis by simp
    next
      case (Some m)
      note r = r[unfolded Some]
      have m: "includes m = includes_of env mom b"
        using retry_manifest_download_Some[OF r] includes_of_Some[OF \<open>search_bundle_in_manifest mom b = Some p\<close>]
        by simp
      define inner where "inner =
         (if includes m \<noteq> []
          then case fuel of 0 \<Rightarrow> None
               | Suc n \<Rightarrow> add_subscriptions_loop n env mom (includes m) (False, 0, 10) st1
          else Some (1, st1))"
      have "inner \<noteq> None"
      proof (cases "includes m = []")
        case True
        then show ?thesis by (simp add: inner_def)
      next
        case False
        have small: "\<forall>i\<in>set (includes m). rk i < fuel"
          using rank[of _ b] "2.prems"(1) m by fastforce
        with False obtain n where n: "fuel = Suc n" by (cases fuel) auto
        from small n have "\<forall>i\<in>set (includes m). rk i \<le> n" by auto
        from "2.IH"(2)[OF \<open>search_bundle_in_manifest mom b = Some p\<close> r[symmetric] refl refl False n this rank]
        show ?thesis using False n by (simp add: inner_def)
      qed
      then obtain ret st2 where inner: "inner = Some (ret, st2)" by auto
      show ?thesis
      proof (cases "ret = - 1")
        case True
        with \<open>search_bundle_in_manifest mom b = Some p\<close> r inner show ?thesis
          by (simp add: inner_def)
      next
        case False
        note IH3 = "2.IH"(3)[OF \<open>search_bundle_in_manifest mom b = Some p\<close> r[symmetric] refl refl
            inner[unfolded inner_def] refl False _ iter rank]
        note IH4 = "2.IH"(4)[OF \<open>search_bundle_in_manifest mom b = Some p\<close> r[symmetric] refl refl
            inner[unfolded inner_def] refl False _ iter rank]
        show ?thesis
          using \<open>search_bundle_in_manifest mom b = Some p\<close> r inner[unfolded inner_def] False IH3 IH4
          by (cases "is_tracked_bundle env b \<or> component_subscribed (subs st2) b") simp_all
      qed
    qed
  qed
qed


lemma add_subscriptions_loop_Some_induct
  [consumes 1, case_names Nil invalid failed leaf inner_failed expanded]:
  assumes run: "add_subscriptions_loop fuel env mom bundles (nb, rt) st = Some (ret, st')"
    and Nil: "\<And>fuel nb rt st. P fuel [] nb rt st (if nb then 0 else 1) st"
    and invalid: "\<And>fuel b iter nb rt st ret st'.
        \<lbrakk>search_bundle_in_manifest mom b = None;
         add_subscriptions_loop fuel env mom iter (nb, rt) st = Some (ret, st');
         P fuel iter nb rt st ret st'\<rbrakk> \<Longrightarrow> P fuel (b # iter) nb rt st ret st'"
    and failed: "\<And>fuel b iter nb rt st p rt1 st1.
        \<lbrakk>search_bundle_in_manifest mom b = Some p;
         retry_manifest_download env p rt st = (None, rt1, st1)\<rbrakk>
        \<Longrightarrow> P fuel (b # iter) nb rt st (- 1) st1"
    and leaf: "\<And>fuel b iter nb rt st p m rt1 st1 ret st'.
        \<lbrakk>search_bundle_in_manifest mom b = Some p;
         retry_manifest_download env p rt st = (Some m, rt1, st1);
         includes m = [];
         add_subscriptions_loop fuel env mom iter
           (if is_tracked_bundle env b \<or> component_subscribed (subs st1) b then nb else True, rt1)
           (if is_tracked_bundle env b \<or> component_subscribed (subs st1) b then st1
            else create_and_append_subscription b st1) = Some (ret, st');
         P fuel iter
           (if is_tracked_bundle env b \<or> component_subscribed (subs st1) b then nb else True) rt1
           (if is_tracked_bundle env b \<or> component_subscribed (subs st1) b then st1
            else create_and_append_subscription b st1) ret st'\<rbrakk>
        \<Longrightarrow> P fuel (b # iter) nb rt st ret st'"
    and inner_failed: "\<And>n b iter nb rt st p m rt1 st1 st2.
        \<lbrakk>search_bundle_in_manifest mom b = Some p;
         retry_manifest_download env p rt st = (Some m, rt1, st1);
         includes m \<noteq> [];
         add_subscriptions_loop n env mom (includes m) (False, 0, 10) st1 = Some (- 1, st2);
         P n (includes m) False (0, 10) st1 (- 1) st2\<rbrakk>
        \<Longrightarrow> P (Suc n) (b # iter) nb rt st (- 1) st2"
    and expanded: "\<And>n b iter nb rt st p m rt1 st1 r2 st2 ret st'.
        \<lbrakk>search_bundle_in_manifest mom b = Some p;
         retry_manifest_download env p rt st = (Some m, rt1, st1);
         includes m \<noteq> [];
         add_subscriptions_loop n env mom (includes m) (False, 0, 10) st1 = Some (r2, st2);
         P n (includes m) False (0, 10) st1 r2 st2;
         r2 \<noteq> - 1;
         add_subscriptions_loop (Suc n) env mom iter
           (if is_tracked_bundle env b \<or> component_subscribed (subs st2) b
            then nb \<or> r2 = 0 else True, rt1)
           (if is_tracked_bundle env b \<or> component_subscribed (subs st2) b then st2
            else create_and_append_subscription b st2) = Some (ret, st');
         P (Suc n) iter
           (if is_tracked_bundle env b \<or> component_subscribed (subs st2) b
            then nb \<or> r2 = 0 else True) rt1
           (if is_tracked_bundle env b \<or> component_subscribed (subs st2) b then st2
            else create_and_append_subscription b st2) ret st'\<rbrakk>
        \<Longrightarrow> P (Suc n) (b # iter) nb rt st ret st'"
  shows "P fuel bundles nb rt st ret st'"
proof -
  have "\<forall>ret st'. add_subscriptions_loop fuel env0 mom0 bundles ls st = Some (ret, st')
          \<longrightarrow> env0 = env \<longrightarrow> mom0 = mom \<longrightarrow> P fuel bundles (fst ls) (snd ls) st ret st'"
    for env0 mom0 ls
  proof (induction fuel env0 mom0 bundles ls st rule: add_subscriptions_loop.induct)
    case (1 fuel env0 mom0 nb rt st)
    show ?case using Nil by auto
  next
    case (2 fuel env0 mom0 b iter nb rt st)
    show ?case
    proof (intro allI impI)
      fix ret st'
      assume run: "add_subscriptions_loop fuel env0 mom0 (b # iter) (nb, rt) st = Some (ret, st')"
        and e: "env0 = env" and m0: "mom0 = mom"
      show "P fuel (b # iter) (fst (nb, rt)) (snd (nb, rt)) st ret st'"
      proof (cases "search_bundle_in_manifest mom b")
        case None
        with run e m0 "2.IH"(1) invalid[OF None] show ?thesis by simp
      next
        case (Some p)
        note sb = this
        have sb0: "search_bundle_in_manifest mom0 b = Some p" using sb m0 by simp
        obtain res rt1 st1 where r: "retry_manifest_download env p rt st = (res, rt1, st1)"
          by (metis prod_cases3)
        have r0: "(res, rt1, st1) = retry_manifest_download env0 p rt st" using r e by simp
        show ?thesis
        proof (cases res)
          case None
          with run e m0 sb r failed[OF sb r[unfolded None]] show ?thesis by simp
        next
          case (Some m)
          note r = r[unfolded Some] and r0 = r0[unfolded Some]
          show ?thesis
          proof (cases "includes m = []")
            case True
            let ?T = "is_tracked_bundle env b \<or> component_subscribed (subs st1) b"
            have inner: "(if includes m \<noteq> []
                then case fuel of 0 \<Rightarrow> None
                     | Suc n \<Rightarrow> add_subscriptions_loop n env0 mom0 (includes m) (False, 0, 10) st1
                else Some (1, st1)) = Some (1, st1)"
              using True by simp
            have cont: "add_subscriptions_loop fuel env mom iter (if ?T then nb else True, rt1)
                     (if ?T then st1 else create_and_append_subscription b st1) = Some (ret, st')"
              using run e m0 sb r True by (auto split: if_splits)
            have "P fuel iter (if ?T then nb else True) rt1
                     (if ?T then st1 else create_and_append_subscription b st1) ret st'"
            proof (cases ?T)
              case True
              from "2.IH"(3)[OF sb0 r0 refl refl inner refl _ True[folded e]] cont True e m0
              show ?thesis by simp
            next
              case False
              from "2.IH"(4)[OF sb0 r0 refl refl inner refl _ False[folded e]] cont False e m0
              show ?thesis by simp
            qed
            from leaf[OF sb r True cont this] show ?thesis by simp
          next
            case False
            with run e m0 sb r obtain n where n: "fuel = Suc n"
              by (cases fuel) auto
            from run e m0 sb r False n obtain r2 st2 where
              in2: "add_subscriptions_loop n env mom (includes m) (False, 0, 10) st1 = Some (r2, st2)"
              by (cases "add_subscriptions_loop n env mom (includes m) (False, 0, 10) st1") auto
            from "2.IH"(2)[OF sb0 r0 refl refl False n] in2 e m0
            have P2: "P n (includes m) False (0, 10) st1 r2 st2" by simp
            show ?thesis
            proof (cases "r2 = - 1")
              case True
              with run e m0 sb r False n in2 have "ret = - 1" "st' = st2" by simp_all
              with inner_failed[OF sb r False in2[unfolded True] P2[unfolded True]] n
              show ?thesis by simp
            next
              case r2: False
              let ?T = "is_tracked_bundle env b \<or> component_subscribed (subs st2) b"
              have inner: "(if includes m \<noteq> []
                  then case fuel of 0 \<Rightarrow> None
                       | Suc n \<Rightarrow> add_subscriptions_loop n env0 mom0 (includes m) (False, 0, 10) st1
                  else Some (1, st1)) = Some (r2, st2)"
                using False n in2 e m0 by simp
              have cont: "add_subscriptions_loop (Suc n) env mom iter
                       (if ?T then nb \<or> r2 = 0 else True, rt1)
                       (if ?T then st2 else create_and_append_subscription b st2) = Some (ret, st')"
                using run e m0 sb r False n in2 r2 by (auto split: if_splits)
              have "P (Suc n) iter (if ?T then nb \<or> r2 = 0 else True) rt1
                       (if ?T then st2 else create_and_append_subscription b st2) ret st'"
              proof (cases ?T)
                case True
                from "2.IH"(3)[OF sb0 r0 refl refl inner refl r2 True[folded e]] cont True e m0 n
                show ?thesis by simp
              next
                case False
                from "2.IH"(4)[OF sb0 r0 refl refl inner refl r2 False[folded e]] cont False e m0 n
                show ?thesis by simp
              qed
              from expanded[OF sb r False in2 P2 r2 cont this] n show ?thesis by simp
            qed
          qed
        qed
      qed
    qed
  qed
  from this[of env mom "(nb, rt)"] run show ?thesis by simp
qed


lemma mutates_retry_events [simp]: "filter mutates (retry_events n ts) = []"
  by (induction ts) (simp_all add: retry_events_def mutates_def)

lemma loads_retry_events:
  "length (filter (\<lambda>e. e = Load n) (retry_events n ts)) = Suc (length ts)"
  by (induction ts) (simp_all add: retry_events_def)

lemma length_backoff [simp]: "length (backoff env t c k) = k"
  by (induction k arbitrary: t c) simp_all

text \<open>
  The timeouts stay within a C int: with a jitter between \<open>0\<close> and \<open>j\<close> every timeout of
  \<open>k\<close> retries is at most \<open>(t + j) * 2 ^ k - j\<close>, so that from the initial 10 seconds and
  with a jitter of at most 5 seconds the timeouts of 27 retries fit 31 bits.
\<close>

lemma backoff_bounded:
  assumes jit: "\<And>c. 0 \<le> jitter env c \<and> jitter env c \<le> j" and t: "0 \<le> t"
  shows "\<forall>x\<in>set (backoff env t c k). 0 \<le> x \<and> x + j \<le> (t + j) * 2 ^ k"
  using t
proof (induction k arbitrary: t c)
  case 0
  then show ?case by simp
next
  case (Suc k)
  let ?t = "t * 2 + jitter env (Suc c)"
  have j0: "0 \<le> j" using jit[of 0] by linarith
  have t2: "0 \<le> ?t" "?t + j \<le> (t + j) * 2"
    using jit[of "Suc c"] Suc.prems by auto
  have p: "(1::int) \<le> 2 ^ Suc k" by (rule one_le_power) simp
  have "(t + j) * 1 \<le> (t + j) * 2 ^ Suc k"
    using Suc.prems j0 p by (intro mult_left_mono) auto
  then have head: "t + j \<le> (t + j) * 2 ^ Suc k" by simp
  have "(?t + j) * 2 ^ k \<le> ((t + j) * 2) * 2 ^ k"
    using t2(2) by (intro mult_right_mono) auto
  then have step: "(?t + j) * 2 ^ k \<le> (t + j) * 2 ^ Suc k" by (simp add: mult.assoc)
  show ?case
  proof
    fix x
    assume "x \<in> set (backoff env t c (Suc k))"
    then consider "x = t" | "x \<in> set (backoff env ?t (Suc (Suc c)) k)" by auto
    then show "0 \<le> x \<and> x + j \<le> (t + j) * 2 ^ Suc k"
    proof cases
      case 1
      with head Suc.prems show ?thesis by blast
    next
      case 2
      with Suc.IH[OF t2(1), of "Suc (Suc c)"]
      have "0 \<le> x" "x + j \<le> (?t + j) * 2 ^ k" by auto
      with step show ?thesis by linarith
    qed
  qed
qed

lemma backoff_fits_int:
  assumes "\<And>c. 0 \<le> jitter env c \<and> jitter env c \<le> 5" and "k \<le> 27"
  shows "\<forall>x\<in>set (backoff env 10 c k). 0 \<le> x \<and> x < 2 ^ 31"
proof
  fix x assume x: "x \<in> set (backoff env 10 c k)"
  from backoff_bounded[OF assms(1), of 10 c k] x
  have b: "0 \<le> x" "x + 5 \<le> 15 * 2 ^ k" by auto
  have "(2::int) ^ k \<le> 2 ^ 27" using assms(2) by (intro power_increasing) auto
  then have "(15::int) * 2 ^ k \<le> 15 * 2 ^ 27" by simp
  also have "\<dots> < 2 ^ 31" by simp
  finally show "0 \<le> x \<and> x < 2 ^ 31" using b by simp
qed

lemma mutates_retry_manifest_download:
  "retry_manifest_download env p rt st = (res, rt1, st1) \<Longrightarrow>
   filter mutates (trace st1) = filter mutates (trace st)"
  using retry_manifest_download_run[of env p rt st res rt1 st1] by auto

lemma mutates_add_subscriptions_loop:
  assumes "add_subscriptions_loop fuel env mom bundles (nb, rt) st = Some (ret, st')"
  shows "filter mutates (trace st') = filter mutates (trace st)"
  using assms
proof (induction rule: add_subscriptions_loop_Some_induct)
  case (Nil fuel nb rt st)
  then show ?case by simp
next
  case (invalid fuel b iter nb rt st ret st')
  then show ?case by simp
next
  case (failed fuel b iter nb rt st p rt1 st1)
  then show ?case by (simp add: mutates_retry_manifest_download)
next
  case (leaf fuel b iter nb rt st p m rt1 st1 ret st')
  then show ?case
    using mutates_retry_manifest_download[OF leaf(2)]
    by (simp add: create_and_append_subscription_def split: if_splits)
next
  case (inner_failed n b iter nb rt st p m rt1 st1 st2)
  then show ?case
    using mutates_retry_manifest_download[OF inner_failed(2)] by simp
next
  case (expanded n b iter nb rt st p m rt1 st1 r2 st2 ret st')
  then show ?case
    using mutates_retry_manifest_download[OF expanded(2)]
    by (simp add: create_and_append_subscription_def split: if_splits)
qed

lemma add_subscriptions_loop_no_new:
  assumes run: "add_subscriptions_loop fuel env mom bundles (nb, rt) st = Some (ret, st')"
    and closed: "\<And>b i. b \<in> C \<Longrightarrow> i \<in> set (includes_of env mom b) \<Longrightarrow> i \<in> C"
    and tracked: "\<And>b. b \<in> C \<Longrightarrow> is_tracked_bundle env b \<or> component_subscribed ss b"
  shows "set bundles \<subseteq> C \<Longrightarrow> subs st = ss \<Longrightarrow>
         subs st' = ss \<and> (ret = - 1 \<or> ret = (if nb then 0 else 1))"
  using run
proof (induction rule: add_subscriptions_loop_Some_induct)
  case (Nil fuel nb rt st)
  then show ?case by simp
next
  case (invalid fuel b iter nb rt st ret st')
  then show ?case by simp
next
  case (failed fuel b iter nb rt st p rt1 st1)
  then show ?case using retry_manifest_download_subs[OF failed(2)] by simp
next
  case (leaf fuel b iter nb rt st p m rt1 st1 ret st')
  have "subs st1 = ss" using retry_manifest_download_subs[OF leaf(2)] leaf.prems by simp
  moreover have "is_tracked_bundle env b \<or> component_subscribed ss b"
    using tracked[of b] leaf.prems by simp
  ultimately show ?case using leaf by simp
next
  case (inner_failed n b iter nb rt st p m rt1 st1 st2)
  have s1: "subs st1 = ss" using retry_manifest_download_subs[OF inner_failed(2)] inner_failed.prems by simp
  have "includes m = includes_of env mom b"
    using retry_manifest_download_Some[OF inner_failed(2)] includes_of_Some[OF inner_failed(1)] by simp
  then have "set (includes m) \<subseteq> C" using closed[of b] inner_failed.prems by auto
  from inner_failed.IH[OF this s1] show ?case by simp
next
  case (expanded n b iter nb rt st p m rt1 st1 r2 st2 ret st')
  have s1: "subs st1 = ss" using retry_manifest_download_subs[OF expanded(2)] expanded.prems by simp
  have "includes m = includes_of env mom b"
    using retry_manifest_download_Some[OF expanded(2)] includes_of_Some[OF expanded(1)] by simp
  then have "set (includes m) \<subseteq> C" using closed[of b] expanded.prems by auto
  from expanded.IH(1)[OF this s1] \<open>r2 \<noteq> - 1\<close> have s2: "subs st2 = ss" "r2 = 1" by simp_all
  moreover have "is_tracked_bundle env b \<or> component_subscribed ss b"
    using tracked[of b] expanded.prems by simp
  ultimately show ?case using expanded.IH(2) expanded.prems by simp
qed

lemma reachable_closed:
  "b \<in> reachable env mom bundles \<Longrightarrow> i \<in> set (includes_of env mom b) \<Longrightarrow>
   i \<in> reachable env mom bundles"
  by (rule reachable.included)

text \<open>
  A run in which every manifest can be fetched at once has no hard failure.
\<close>

lemma retry_manifest_download_available:
  "manifest_available env (clock st) p \<Longrightarrow>
   retry_manifest_download env p rt st
     = (Some (manifest_content env p), rt, tick (emit [Load (filename p)] st))"
  by (subst retry_manifest_download.simps) (simp add: load_manifest_def)

lemma add_subscriptions_loop_no_failure:
  assumes run: "add_subscriptions_loop fuel env mom bundles (nb, rt) st = Some (ret, st')"
    and avail: "\<And>t p. manifest_available env t p"
  shows "ret \<noteq> - 1"
  using run
proof (induction rule: add_subscriptions_loop_Some_induct)
  case (failed fuel b iter nb rt st p rt1 st1)
  then show ?case using retry_manifest_download_available[of env st p rt] avail by simp
qed simp_all

text \<open>
  Claim C6, as amended. When every bundle reachable from the requested ones through
  includes is already tracked or already subscribed, a run of \<^verbatim>\<open>add_subscriptions\<close> that
  returns yields \<open>1\<close> or the hard failure \<open>-1\<close> and adds no subscription, no event that
  changes the disk has happened, and \<^verbatim>\<open>install_bundles\<close> returns \<open>EBUNDLE_INSTALL\<close> from that
  state, before any file is staged or renamed; the result is \<open>1\<close> when every manifest
  can be fetched. The run returns whenever the includes are acyclic and the depth of the
  recursion allowed reaches the rank of the requested bundles.
\<close>

theorem install_nothing_new:
  assumes "\<forall>b\<in>reachable env mom bundles.
             is_tracked_bundle env b \<or> component_subscribed (subs st) b"
  shows "(add_subscriptions fuel env bundles current_version mom st = Some (ret, st1) \<longrightarrow>
            (ret = 1 \<or> ret = - 1) \<and> subs st1 = subs st
            \<and> filter mutates (trace st1) = filter mutates (trace st)
            \<and> install_bundles fuel env bundles current_version mom st
                = Some (EBUNDLE_INSTALL, free_subscriptions st1)
            \<and> ((\<forall>t p. manifest_available env t p) \<longrightarrow> ret = 1))
       \<and> ((\<forall>b. \<forall>i\<in>set (includes_of env mom b). rk i < (rk b :: nat))
            \<and> (\<forall>b\<in>set bundles. rk b \<le> fuel) \<longrightarrow>
          add_subscriptions fuel env bundles current_version mom st \<noteq> None)"
proof (intro conjI impI)
  assume run: "add_subscriptions fuel env bundles current_version mom st = Some (ret, st1)"
  have loop: "add_subscriptions_loop fuel env mom bundles (False, 0, 10) st = Some (ret, st1)"
    using run by (simp add: add_subscriptions_def)
  have "subs st1 = subs st \<and> (ret = - 1 \<or> ret = (if False then 0 else 1))"
    using assms
    by (intro add_subscriptions_loop_no_new[OF loop, of "reachable env mom bundles"])
       (auto intro: reachable.intros)
  then show ret: "ret = 1 \<or> ret = - 1" and "subs st1 = subs st" by auto
  then show "install_bundles fuel env bundles current_version mom st
               = Some (EBUNDLE_INSTALL, free_subscriptions st1)"
    using run by (auto simp: install_bundles_def install_resolve_def)
  show "filter mutates (trace st1) = filter mutates (trace st)"
    by (rule mutates_add_subscriptions_loop[OF loop])
  show "ret = 1" if "\<forall>t p. manifest_available env t p"
    using add_subscriptions_loop_no_failure[OF loop] that ret by simp
next
  assume "(\<forall>b. \<forall>i\<in>set (includes_of env mom b). rk i < rk b) \<and> (\<forall>b\<in>set bundles. rk b \<le> fuel)"
  then show "add_subscriptions fuel env bundles current_version mom st \<noteq> None"
    unfolding add_subscriptions_def
    by (intro add_subscriptions_loop_returns[where rk = rk]) auto
qed

text \<open>
  The theorem at the third scenario: \<open>devtools\<close>, \<open>editors\<close> and \<open>os-core\<close> are tracked
  and \<open>devtools\<close> is requested.
\<close>

lemma ex_reachable:
  "b \<in> reachable ex_env ex_mom [''devtools''] \<Longrightarrow>
   b = ''os-core'' \<or> b = ''editors'' \<or> b = ''devtools''"
  by (induction rule: reachable.induct)
     (auto simp: includes_of_def ex_defs search_bundle_in_manifest_def split: if_splits)

lemma ex_rank_includes:
  "i \<in> set (includes_of ex_env ex_mom b) \<Longrightarrow> ex_rank i < ex_rank b"
  by (auto simp: includes_of_def ex_defs search_bundle_in_manifest_def ex_rank_def
      split: if_splits)

theorem install_nothing_new_witness:
  "add_subscriptions 2 ex_env [''devtools''] 10 ex_mom st0
     = Some (1, \<lparr>subs = [], clock = 4,
                 trace = [Load ''devtools'', Load ''os-core'', Load ''editors'',
                          Load ''os-core'']\<rparr>)
   \<and> install_bundles 2 ex_env [''devtools''] 10 ex_mom st0
     = Some (EBUNDLE_INSTALL,
             \<lparr>subs = [], clock = 4,
                trace = [Load ''devtools'', Load ''os-core'', Load ''editors'',
                         Load ''os-core'']\<rparr>)"
proof -
  let ?S = "\<lparr>subs = [], clock = 4,
             trace = [Load ''devtools'', Load ''os-core'', Load ''editors'', Load ''os-core'']\<rparr>"
  have tracked: "\<forall>b\<in>reachable ex_env ex_mom [''devtools''].
                   is_tracked_bundle ex_env b \<or> component_subscribed (subs st0) b"
    using ex_reachable by (auto simp: is_tracked_bundle_def ex_env_def)
  have rank: "(\<forall>b. \<forall>i\<in>set (includes_of ex_env ex_mom b). ex_rank i < ex_rank b)
              \<and> (\<forall>b\<in>set [''devtools'']. ex_rank b \<le> 2)"
    using ex_rank_includes by (auto simp: ex_rank_def)
  have avail: "\<forall>t p. manifest_available ex_env t p"
    by (simp add: ex_env_def)
  note inst = install_nothing_new[OF tracked, where fuel = 2 and current_version = 10
      and rk = ex_rank]
  from inst rank obtain ret st1 where
    run: "add_subscriptions 2 ex_env [''devtools''] 10 ex_mom st0 = Some (ret, st1)"
    by fastforce
  with inst[of ret st1] avail have
    "ret = 1" "filter mutates (trace st1) = filter mutates (trace st0)"
    "install_bundles 2 ex_env [''devtools''] 10 ex_mom st0
       = Some (EBUNDLE_INSTALL, free_subscriptions st1)"
    by simp_all
  moreover have "add_subscriptions 2 ex_env [''devtools''] 10 ex_mom st0 = Some (1, ?S)"
    by (simp add: run_defs ex_defs step_defs numeral_2_eq_2)
  ultimately show ?thesis using run by (simp add: free_subscriptions_def)
qed

text \<open>
  With includes that form a cycle the recursion of \<^verbatim>\<open>add_subscriptions\<close> on the includes
  never comes back, whatever depth is allowed.
\<close>

lemma cyclic_env_search:
  "b = ''editors'' \<or> b = ''devtools'' \<Longrightarrow> search_bundle_in_manifest ex_mom b = Some (ptr b)"
  by (auto simp: ex_defs step_defs)

lemma cyclic_env_retry:
  "retry_manifest_download cyclic_env (ptr b) rt st
     = (Some (mk_manifest b [] [if b = ''editors'' then ''devtools'' else ''editors'']), rt,
        tick (emit [Load b] st))"
  by (subst retry_manifest_download.simps)
     (simp add: load_manifest_def cyclic_env_def ex_env_def ptr_def mk_file_def)

lemma cyclic_env_loop:
  "b = ''editors'' \<or> b = ''devtools'' \<Longrightarrow>
   add_subscriptions_loop fuel cyclic_env ex_mom [b] (False, 0, 10) st = None"
proof (induction fuel arbitrary: b st)
  case 0
  then show ?case
    by (subst add_subscriptions_loop.simps)
       (simp add: cyclic_env_search cyclic_env_retry mk_manifest_def
          del: add_subscriptions_loop.simps)
next
  case (Suc n)
  have "add_subscriptions_loop n cyclic_env ex_mom
          [if b = ''editors'' then ''devtools'' else ''editors''] (False, 0, 10)
          (tick (emit [Load b] st)) = None"
    by (rule Suc.IH) simp
  with Suc.prems show ?case
    by (subst add_subscriptions_loop.simps)
       (simp add: cyclic_env_search cyclic_env_retry mk_manifest_def
          del: add_subscriptions_loop.simps)
qed

lemma flaky_reachable:
  "b \<in> reachable flaky_env ex_mom [''devtools''] \<Longrightarrow> b = ''devtools''"
  by (induction rule: reachable.induct)
     (auto simp: includes_of_def flaky_env_def ex_defs search_bundle_in_manifest_def
       split: if_splits option.splits)

lemma cyclic_reachable:
  "b \<in> reachable cyclic_env ex_mom [''devtools''] \<Longrightarrow> b = ''editors'' \<or> b = ''devtools''"
  by (induction rule: reachable.induct)
     (auto simp: includes_of_def cyclic_env_def ex_defs search_bundle_in_manifest_def
       split: if_splits option.splits)

text \<open>
  Claim C6 as stated fails on two systems in which every reachable bundle is tracked.
  When the manifest of the requested bundle cannot be fetched, \<^verbatim>\<open>add_subscriptions\<close>
  returns \<open>-1\<close> after its retries, not \<open>1\<close>. When \<open>editors\<close> and \<open>devtools\<close> include each
  other it does not return.
\<close>

theorem install_nothing_new_counterexample:
  "reachable flaky_env ex_mom [''devtools''] \<subseteq> Collect (is_tracked_bundle flaky_env)
   \<and> (\<forall>fuel. add_subscriptions fuel flaky_env [''devtools''] 10 ex_mom st0
        = Some (- 1, \<lparr>subs = [], clock = 7,
                      trace = [Load ''devtools'', Sleep 10, Load ''devtools'', Sleep 20,
                               Load ''devtools'', Sleep 40, Load ''devtools'']\<rparr>))
   \<and> reachable cyclic_env ex_mom [''devtools''] \<subseteq> Collect (is_tracked_bundle cyclic_env)
   \<and> (\<forall>fuel. add_subscriptions fuel cyclic_env [''devtools''] 10 ex_mom st0 = None)"
proof (intro conjI allI)
  show "reachable flaky_env ex_mom [''devtools''] \<subseteq> Collect (is_tracked_bundle flaky_env)"
    using flaky_reachable by (auto simp: is_tracked_bundle_def flaky_env_def ex_env_def)
  show "reachable cyclic_env ex_mom [''devtools''] \<subseteq> Collect (is_tracked_bundle cyclic_env)"
    using cyclic_reachable by (auto simp: is_tracked_bundle_def cyclic_env_def ex_env_def)
  show "add_subscriptions fuel flaky_env [''devtools''] 10 ex_mom st0
        = Some (- 1, \<lparr>subs = [], clock = 7,
                      trace = [Load ''devtools'', Sleep 10, Load ''devtools'', Sleep 20,
                               Load ''devtools'', Sleep 40, Load ''devtools'']\<rparr>)" for fuel
    by (simp add: run_defs flaky_env_def ex_defs step_defs)
  show "add_subscriptions fuel cyclic_env [''devtools''] 10 ex_mom st0 = None" for fuel
    unfolding add_subscriptions_def by (intro cyclic_env_loop) simp
qed


text \<open>
  Claim C9, as amended. \<^verbatim>\<open>add_subscriptions\<close> terminates on every bundle graph whose
  includes are acyclic, that is, ranked so that every include of a bundle has a smaller
  rank than the bundle: a recursion depth equal to the largest rank of the requested
  bundles is enough for it to return.
\<close>

theorem add_subscriptions_terminates_acyclic:
  assumes "\<And>b i. i \<in> set (includes_of env mom b) \<Longrightarrow> rk i < (rk b :: nat)"
    and "\<forall>b\<in>set bundles. rk b \<le> fuel"
  shows "\<exists>ret st'. add_subscriptions fuel env bundles current_version mom st = Some (ret, st')"
proof -
  have "add_subscriptions fuel env bundles current_version mom st \<noteq> None"
    unfolding add_subscriptions_def
    using assms by (intro add_subscriptions_loop_returns[where rk = rk]) auto
  then show ?thesis by auto
qed

theorem add_subscriptions_terminates_acyclic_witness:
  "\<exists>ret st'. add_subscriptions 2 ex_env [''devtools''] 10 ex_mom st0 = Some (ret, st')"
  using add_subscriptions_terminates_acyclic[of ex_env ex_mom ex_rank "[''devtools'']" 2 10 st0]
    ex_rank_includes
  by (simp add: ex_rank_def)

text \<open>
  Claim C9 as stated fails on a cyclic graph. The test for a tracked or subscribed bundle
  comes after the recursive call on the includes of the bundle, so a bundle that is already
  tracked is expanded again: with \<open>editors\<close> and \<open>devtools\<close> including each other, both
  tracked, no depth of recursion is enough for \<^verbatim>\<open>add_subscriptions\<close> to return.
\<close>

theorem add_subscriptions_cyclic_counterexample:
  "\<forall>fuel. add_subscriptions fuel cyclic_env [''devtools''] 10 ex_mom st0 = None"
  unfolding add_subscriptions_def by (intro allI cyclic_env_loop) simp

text \<open>
  Claim C8, as amended. In \<^verbatim>\<open>add_subscriptions\<close> the load of a bundle's manifest is one
  first attempt followed by \<open>k\<close> retries, with \<open>k\<close> at most \<open>MAX_TRIES\<close>, hence at most
  \<open>MAX_TRIES + 1\<close> attempts; before each retry the code sleeps \<open>timeout\<close> seconds and then
  replaces \<open>timeout\<close> by its double plus the jitter; each retry adds one to the counter
  \<open>retries\<close>; and when the load fails for good the counter has reached \<open>MAX_TRIES\<close> and
  \<^verbatim>\<open>add_subscriptions\<close> returns the hard failure \<open>-1\<close> in the state the last attempt left.
\<close>

theorem manifest_load_retries:
  assumes "retry_manifest_download env p (retries, timeout) st = (res, (retries', timeout'), st')"
    and "0 \<le> retries" and "0 \<le> MAX_TRIES env"
  shows "\<exists>k. int k \<le> MAX_TRIES env
           \<and> retries' = retries + int k
           \<and> trace st' = trace st @ retry_events (filename p) (backoff env timeout (clock st) k)
           \<and> length (filter (\<lambda>e. e = Load (filename p))
                       (retry_events (filename p) (backoff env timeout (clock st) k))) = k + 1
           \<and> (res = None \<longrightarrow> MAX_TRIES env \<le> retries'
                \<and> (\<forall>fuel mom b iter nb. search_bundle_in_manifest mom b = Some p \<longrightarrow>
                     add_subscriptions_loop fuel env mom (b # iter) (nb, retries, timeout) st
                       = Some (- 1, st')))"
proof -
  from retry_manifest_download_run[OF assms(1)]
  obtain k where run: "fst (retries', timeout') = fst (retries, timeout) + int k
      \<and> (0 < k \<longrightarrow> fst (retries', timeout') \<le> MAX_TRIES env)
      \<and> trace st' = trace st
            @ retry_events (filename p) (backoff env (snd (retries, timeout)) (clock st) k)
      \<and> clock st' = clock st + 2 * k + 1
      \<and> subs st' = subs st
      \<and> (case res of
            None \<Rightarrow> MAX_TRIES env \<le> fst (retries', timeout')
                    \<and> \<not> manifest_available env (clock st + 2 * k) p
          | Some m \<Rightarrow> m = manifest_content env p
                    \<and> manifest_available env (clock st + 2 * k) p)"
    by blast
  then have k: "retries' = retries + int k" "0 < k \<longrightarrow> retries' \<le> MAX_TRIES env"
    "trace st' = trace st @ retry_events (filename p) (backoff env timeout (clock st) k)"
    "res = None \<longrightarrow> MAX_TRIES env \<le> retries'"
    by (auto split: option.splits)
  have "int k \<le> MAX_TRIES env"
    using k(1,2) assms(2,3) by (cases k) auto
  moreover have "add_subscriptions_loop fuel env mom (b # iter) (nb, retries, timeout) st
                   = Some (- 1, st')"
    if "res = None" "search_bundle_in_manifest mom b = Some p" for fuel mom b iter nb
    using that assms(1) by simp
  ultimately show ?thesis
    using k by (intro exI[of _ k]) (auto simp: loads_retry_events)
qed


text \<open>
  The theorem at a manifest that cannot be fetched, with \<open>MAX_TRIES = 3\<close>: four attempts,
  sleeps of 10, 20 and 40 seconds between them, then the hard failure.
\<close>

theorem manifest_load_retries_witness:
  "retry_manifest_download flaky_env (ptr ''devtools'') (0, 10) st0
     = (None, (3, 80), \<lparr>subs = [], clock = 7, trace = retry_events ''devtools'' [10, 20, 40]\<rparr>)
   \<and> 0 \<le> MAX_TRIES flaky_env
   \<and> MAX_TRIES flaky_env \<le> 3
   \<and> add_subscriptions_loop 0 flaky_env ex_mom [''devtools''] (False, 0, 10) st0
        = Some (- 1, \<lparr>subs = [], clock = 7, trace = retry_events ''devtools'' [10, 20, 40]\<rparr>)"
proof -
  have run: "retry_manifest_download flaky_env (ptr ''devtools'') (0, 10) st0
     = (None, (3, 80), \<lparr>subs = [], clock = 7, trace = retry_events ''devtools'' [10, 20, 40]\<rparr>)"
    by (simp add: run_defs flaky_env_def ex_defs step_defs retry_events_def)
  have m: "0 \<le> MAX_TRIES flaky_env" by (simp add: flaky_env_def ex_env_def)
  have s: "search_bundle_in_manifest ex_mom ''devtools'' = Some (ptr ''devtools'')"
    by (simp add: ex_defs step_defs)
  from manifest_load_retries[OF run _ m] s run m show ?thesis by auto
qed

text \<open>
  Claim C8 as stated fails twice in one run with \<open>MAX_TRIES = 3\<close>. The manifest of
  \<open>editors\<close> is attempted four times, one more than \<open>MAX_TRIES\<close>. The counter \<open>retries\<close> is
  a local of the call and is not reset between the bundles of its list, so after the three
  retries spent on \<open>editors\<close> the first failed attempt on \<open>devtools\<close> is already the hard
  failure, without a sleep or a second attempt.
\<close>

theorem manifest_load_retries_counterexample:
  "MAX_TRIES flaky_env = 3
   \<and> add_subscriptions 0 flaky_env [''editors'', ''devtools''] 10 ex_mom st0
      = Some (- 1, \<lparr>subs = [], clock = 8,
                    trace = [Load ''editors'', Sleep 10, Load ''editors'', Sleep 20,
                             Load ''editors'', Sleep 40, Load ''editors'',
                             Load ''devtools'']\<rparr>)"
  by (simp add: run_defs flaky_env_def ex_defs step_defs)


section \<open>Installing: properties\<close>

lemma extends_refl [simp]: "extends Q st st"
  by (simp add: extends_def)

lemma extends_trans: "extends Q st st1 \<Longrightarrow> extends Q st1 st2 \<Longrightarrow> extends Q st st2"
  by (auto simp: extends_def)

lemma extends_same_trace: "trace st' = trace st \<Longrightarrow> extends Q st st'"
  by (simp add: extends_def)

lemma extends_emit: "list_all Q es \<Longrightarrow> extends Q st (emit es st)"
  by (simp add: extends_def emit_def)

lemma extends_tick_emit: "list_all Q es \<Longrightarrow> extends Q st (tick (emit es st))"
  by (simp add: extends_def emit_def tick_def)

lemma extends_mono: "extends Q st st' \<Longrightarrow> (\<And>e. Q e \<Longrightarrow> Q' e) \<Longrightarrow> extends Q' st st'"
  by (auto simp: extends_def list_all_iff)

lemma fetch_load_manifest:
  "load_manifest env p st = (r, st1) \<Longrightarrow> extends is_fetch st st1"
  by (auto simp: load_manifest_def is_fetch_def intro!: extends_tick_emit)

lemma fetch_retry_manifest_download:
  assumes "retry_manifest_download env p rt st = (res, rt1, st1)"
  shows "extends is_fetch st st1"
proof -
  have "list_all is_fetch (retry_events n ts)" for n ts
    by (induction ts) (simp_all add: retry_events_def is_fetch_def)
  then show ?thesis
    using retry_manifest_download_run[OF assms] by (auto simp: extends_def)
qed

lemma fetch_add_subscriptions_loop:
  assumes "add_subscriptions_loop fuel env mom bundles (nb, rt) st = Some (ret, st')"
  shows "extends is_fetch st st'"
  using assms
proof (induction rule: add_subscriptions_loop_Some_induct)
  case (Nil fuel nb rt st)
  then show ?case by simp
next
  case (invalid fuel b iter nb rt st ret st')
  then show ?case by simp
next
  case (failed fuel b iter nb rt st p rt1 st1)
  then show ?case by (simp add: fetch_retry_manifest_download)
next
  case (leaf fuel b iter nb rt st p m rt1 st1 ret st')
  have "extends is_fetch st1
          (if is_tracked_bundle env b \<or> component_subscribed (subs st1) b then st1
           else create_and_append_subscription b st1)"
    by (simp add: extends_same_trace create_and_append_subscription_def)
  with fetch_retry_manifest_download[OF leaf(2)] leaf.IH show ?case
    by (blast intro: extends_trans)
next
  case (inner_failed n b iter nb rt st p m rt1 st1 st2)
  with fetch_retry_manifest_download[OF inner_failed(2)] show ?case
    by (blast intro: extends_trans)
next
  case (expanded n b iter nb rt st p m rt1 st1 r2 st2 ret st')
  have "extends is_fetch st2
          (if is_tracked_bundle env b \<or> component_subscribed (subs st2) b then st2
           else create_and_append_subscription b st2)"
    by (simp add: extends_same_trace create_and_append_subscription_def)
  with fetch_retry_manifest_download[OF expanded(2)] expanded.IH show ?case
    by (blast intro: extends_trans)
qed

lemma fetch_recurse_walk:
  "recurse_walk env mom work found st = (r, st1) \<Longrightarrow> extends is_fetch st st1"
proof (induction env mom work found st rule: recurse_walk.induct)
  case (1 env mom found st)
  then show ?case by simp
next
  case (2 env mom b work found st)
  show ?case
  proof (cases "b \<in> set (map fst found)")
    case True
    with 2 show ?thesis by simp
  next
    case False
    note fresh = this
    show ?thesis
    proof (cases "search_bundle_in_manifest mom b")
      case None
      with fresh "2.prems" show ?thesis by simp
    next
      case (Some p)
      obtain res st2 where l: "load_manifest env p st = (res, st2)"
        by (cases "load_manifest env p st")
      show ?thesis
      proof (cases res)
        case None
        with fresh Some l "2.prems" fetch_load_manifest[OF l] show ?thesis by simp
      next
        case (Some m)
        note l = l[unfolded Some]
        have "recurse_walk env mom (work @ includes m) (found @ [(b, m)]) st2 = (r, st1)"
          using fresh \<open>search_bundle_in_manifest mom b = Some p\<close> l "2.prems" by simp
        from "2.IH"(2)[OF fresh \<open>search_bundle_in_manifest mom b = Some p\<close> l[symmetric] refl this]
          fetch_load_manifest[OF l]
        show ?thesis by (blast intro: extends_trans)
      qed
    qed
  qed
qed

lemma recurse_walk_Some_induct [consumes 1, case_names finished seen loaded]:
  assumes run: "recurse_walk env mom work found st = (Some found', st')"
    and finished: "\<And>found st. P [] found st found st"
    and seen: "\<And>b work found st found' st'.
        \<lbrakk>b \<in> set (map fst found);
         recurse_walk env mom work found st = (Some found', st');
         P work found st found' st'\<rbrakk> \<Longrightarrow> P (b # work) found st found' st'"
    and loaded: "\<And>b work found st p m st1 found' st'.
        \<lbrakk>b \<notin> set (map fst found);
         search_bundle_in_manifest mom b = Some p;
         load_manifest env p st = (Some m, st1);
         recurse_walk env mom (work @ includes m) (found @ [(b, m)]) st1 = (Some found', st');
         P (work @ includes m) (found @ [(b, m)]) st1 found' st'\<rbrakk>
        \<Longrightarrow> P (b # work) found st found' st'"
  shows "P work found st found' st'"
proof -
  have "recurse_walk env0 mom0 work found st = (Some found', st') \<Longrightarrow> env0 = env \<Longrightarrow> mom0 = mom
        \<Longrightarrow> P work found st found' st'" for env0 mom0
  proof (induction env0 mom0 work found st rule: recurse_walk.induct)
    case (1 env0 mom0 found st)
    then show ?case using finished by simp
  next
    case (2 env0 mom0 b work found st)
    note e = \<open>env0 = env\<close> \<open>mom0 = mom\<close>
    show ?case
    proof (cases "b \<in> set (map fst found)")
      case True
      have w: "recurse_walk env mom work found st = (Some found', st')"
        using True "2.prems" by simp
      from seen[OF True w "2.IH"(1)[OF True w[folded e] e]] show ?thesis .
    next
      case False
      note fresh = this
      show ?thesis
      proof (cases "search_bundle_in_manifest mom b")
        case None
        with fresh "2.prems" show ?thesis by simp
      next
        case (Some p)
        obtain res st2 where l: "load_manifest env p st = (res, st2)"
          by (cases "load_manifest env p st")
        show ?thesis
        proof (cases res)
          case None
          with fresh Some l "2.prems" show ?thesis by simp
        next
          case (Some m)
          note l = l[unfolded Some]
          note sb = \<open>search_bundle_in_manifest mom b = Some p\<close>
          have w: "recurse_walk env mom (work @ includes m) (found @ [(b, m)]) st2
                     = (Some found', st')"
            using fresh sb l "2.prems" by simp
          from "2.IH"(2)[OF fresh sb[folded e] l[symmetric, folded e] refl w[folded e] e]
          show ?thesis
            by (rule loaded[OF fresh sb l w])
        qed
      qed
    qed
  qed
  from this[OF run refl refl] show ?thesis .
qed

lemma fetch_recurse_manifest:
  "recurse_manifest env mom cname st = (r, st1) \<Longrightarrow> extends is_fetch st st1"
  by (auto simp: recurse_manifest_def split: option.splits prod.splits
      dest!: fetch_load_manifest fetch_recurse_walk)

lemma trace_subscription_versions_from_MoM [simp]:
  "trace (subscription_versions_from_MoM mom st) = trace st"
  by (simp add: subscription_versions_from_MoM_def)

lemma trace_read_subscriptions_alt [simp]: "trace (read_subscriptions_alt env st) = trace st"
  by (simp add: read_subscriptions_alt_def)

lemma prepare_install_resolve:
  assumes "install_resolve fuel env bundles current_version mom st = Some (r, st')"
  shows "extends is_prepare st st'"
proof -
  have fp: "extends is_fetch a b \<Longrightarrow> extends is_prepare a b" for a b
    by (erule extends_mono) (simp add: is_prepare_def)
  obtain ret st1 where a: "add_subscriptions fuel env bundles current_version mom st = Some (ret, st1)"
    using assms by (auto simp: install_resolve_def split: option.splits)
  have e1: "extends is_prepare st st1"
    using a by (auto simp: add_subscriptions_def intro: fp fetch_add_subscriptions_loop)
  show ?thesis
  proof (cases "ret = 0")
    case False
    with assms a e1 show ?thesis by (simp add: install_resolve_def)
  next
    case True
    obtain bs st2 where r1: "recurse_manifest env mom None (subscription_versions_from_MoM mom st1) = (bs, st2)"
      by (cases "recurse_manifest env mom None (subscription_versions_from_MoM mom st1)")
    have e2: "extends is_prepare st1 st2"
      using fetch_recurse_manifest[OF r1] by (auto simp: extends_def is_prepare_def list_all_iff)
    show ?thesis
    proof (cases "bs = []")
      case True
      with assms a r1 \<open>ret = 0\<close> e1 e2 show ?thesis
        by (auto simp: install_resolve_def intro: extends_trans)
    next
      case False
      define st4 where "st4 = subscription_versions_from_MoM mom
         (read_subscriptions_alt env (emit [RmStagingDir, DownloadPacks] st2))"
      obtain subm st5 where r2: "recurse_manifest env mom None st4 = (subm, st5)"
        by (cases "recurse_manifest env mom None st4")
      have e3: "extends is_prepare st2 st4"
        by (simp add: st4_def extends_def emit_def is_prepare_def)
      have e4: "extends is_prepare st4 st5"
        using fetch_recurse_manifest[OF r2] by (rule fp)
      have "st' = st5"
        using assms a r1 \<open>ret = 0\<close> False r2
        by (auto simp: install_resolve_def Let_def st4_def split: if_splits)
      with e1 e2 e3 e4 show ?thesis by (blast intro: extends_trans)
    qed
  qed
qed


lemma stage_files_run:
  "stage_files env fs mom st = (ok, fs', mom', st') \<Longrightarrow>
   \<exists>evs. trace st' = trace st @ evs \<and> list_all is_staging evs
     \<and> (ok \<longrightarrow> (\<forall>f\<in>set fs. \<not> skipped env f \<longrightarrow>
                   DoStaging (filename f) True \<in> set evs
                 \<or> VerifyFixPath (filename f) True \<in> set evs))
     \<and> (ok \<longrightarrow> map filename fs' = map filename fs)
     \<and> map filename (files mom') = map filename (files mom)"
proof (induction fs arbitrary: mom st ok fs' mom' st')
  case Nil
  then show ?case by simp
next
  case (Cons f iter)
  show ?case
  proof (cases "skipped env f")
    case True
    obtain ok2 fs2 mom2 st2 where r: "stage_files env iter mom st = (ok2, fs2, mom2, st2)"
      by (metis prod_cases4)
    with Cons.prems True have eq: "ok = ok2" "fs' = f # fs2" "mom' = mom2" "st' = st2"
      by simp_all
    from Cons.IH[OF r] True eq show ?thesis by auto
  next
    case False
    define staged where "staged = staging_ok env (clock st) f"
    define f1 where "f1 = (if staged then f\<lparr>staging := Some (staged_path env f)\<rparr> else f)"
    define st1 where "st1 = tick (emit [DoStaging (filename f) staged] st)"
    have ds: "do_staging env f st = (staged, f1, st1)"
      by (simp add: do_staging_def staged_def f1_def st1_def)
    define fixed where "fixed = fix_path_ok env (clock st1) (filename f)"
    define ok1 where "ok1 = (staged \<or> fixed)"
    define mom1 where "mom1 = (if \<not> staged \<and> fixed
        then mom\<lparr>files := map (\<lambda>g. if filename g = filename f
                                   then g\<lparr>staging := Some (staged_path env g)\<rparr> else g)
                             (files mom)\<rparr>
        else mom)"
    define st2 where "st2 = (if staged then st1
        else tick (emit [VerifyFixPath (filename f) fixed] st1))"
    have vf: "(if staged then (True, mom, st1) else verify_fix_path env (filename f) mom st1)
                = (ok1, mom1, st2)"
      by (simp add: verify_fix_path_def fixed_def ok1_def mom1_def st2_def)
    have names1: "map filename (files mom1) = map filename (files mom)"
      by (simp add: mom1_def comp_def)
    have f1name: "filename f1 = filename f" by (simp add: f1_def)
    define evs1 where "evs1 = (if staged then [DoStaging (filename f) True]
        else [DoStaging (filename f) False, VerifyFixPath (filename f) fixed])"
    have t2: "trace st2 = trace st @ evs1" "list_all is_staging evs1"
      by (simp_all add: st2_def st1_def evs1_def emit_def tick_def is_staging_def)
    have done1: "ok1 \<Longrightarrow> DoStaging (filename f) True \<in> set evs1
                        \<or> VerifyFixPath (filename f) True \<in> set evs1"
      by (auto simp: ok1_def evs1_def)
    show ?thesis
    proof (cases ok1)
      case False
      with Cons.prems \<open>\<not> skipped env f\<close> ds vf
      have "ok = False" "mom' = mom1" "st' = st2" by simp_all
      with t2 names1 show ?thesis by auto
    next
      case True
      obtain ok3 fs3 mom3 st3 where r: "stage_files env iter mom1 st2 = (ok3, fs3, mom3, st3)"
        by (metis prod_cases4)
      with Cons.prems \<open>\<not> skipped env f\<close> ds vf True
      have eq: "ok = ok3" "fs' = f1 # fs3" "mom' = mom3" "st' = st3" by simp_all
      from Cons.IH[OF r] obtain evs where evs: "trace st3 = trace st2 @ evs"
        "list_all is_staging evs"
        "ok3 \<longrightarrow> (\<forall>f\<in>set iter. \<not> skipped env f \<longrightarrow>
                   DoStaging (filename f) True \<in> set evs
                 \<or> VerifyFixPath (filename f) True \<in> set evs)"
        "ok3 \<longrightarrow> map filename fs3 = map filename iter"
        "map filename (files mom3) = map filename (files mom1)"
        by blast
      show ?thesis
        using evs t2 done1[OF True] names1 f1name eq
        by (intro exI[of _ "evs1 @ evs"]) auto
    qed
  qed
qed

lemma search_file_in_manifest_found:
  "path \<in> filename ` set (files mom) \<Longrightarrow> search_file_in_manifest mom path \<noteq> None"
  by (auto simp: search_file_in_manifest_def find_None_iff)

lemma rename_files_run:
  "\<exists>evs. trace (rename_files env fs mom st) = trace st @ evs \<and> list_all is_rename evs
     \<and> (filename ` set fs \<subseteq> filename ` set (files mom) \<longrightarrow> Rename None \<notin> set evs)"
proof (induction fs arbitrary: st)
  case Nil
  then show ?case by simp
next
  case (Cons f iter)
  show ?case
  proof (cases "skipped env f")
    case True
    with Cons.IH[of st] show ?thesis by auto
  next
    case False
    define e where "e = Rename (if staging f = None
        then search_file_in_manifest mom (filename f) else Some f)"
    from Cons.IH[of "emit [e] st"] obtain evs where
      evs: "trace (rename_files env iter mom (emit [e] st)) = trace (emit [e] st) @ evs"
      "list_all is_rename evs"
      "filename ` set iter \<subseteq> filename ` set (files mom) \<longrightarrow> Rename None \<notin> set evs"
      by blast
    have ne: "filename f \<in> filename ` set (files mom) \<Longrightarrow> e \<noteq> Rename None"
      using search_file_in_manifest_found[of "filename f" mom] by (auto simp: e_def)
    have re: "is_rename e" by (simp add: e_def is_rename_def)
    have step: "rename_files env (f # iter) mom st = rename_files env iter mom (emit [e] st)"
      using False by (simp add: e_def)
    have "trace (rename_files env (f # iter) mom st) = trace st @ (e # evs)"
      unfolding step evs(1) by (simp add: emit_def)
    moreover have "list_all is_rename (e # evs)" using evs(2) re by simp
    moreover have "filename ` set (f # iter) \<subseteq> filename ` set (files mom)
                     \<longrightarrow> Rename None \<notin> set (e # evs)"
      using evs(3) ne by auto
    ultimately show ?thesis by blast
  qed
qed


lemma load_manifest_Some:
  "load_manifest env p st = (Some m, st1) \<Longrightarrow> m = manifest_content env p"
  by (auto simp: load_manifest_def split: if_splits)

lemma subs_load_manifest: "load_manifest env p st = (r, st1) \<Longrightarrow> subs st1 = subs st"
  by (auto simp: load_manifest_def emit_def tick_def)

lemma subs_recurse_walk:
  "recurse_walk env mom work found st = (Some found', st') \<Longrightarrow> subs st' = subs st"
  by (induction rule: recurse_walk_Some_induct) (simp_all add: subs_load_manifest)

lemma recurse_walk_found:
  assumes "recurse_walk env mom work found st = (Some found', st')"
  shows "published env mom found \<Longrightarrow>
         (\<forall>(b, m)\<in>set found. set (includes m) \<subseteq> fst ` set found \<union> set work) \<Longrightarrow>
         set work \<subseteq> fst ` set found' \<and> set found \<subseteq> set found'
         \<and> published env mom found'
         \<and> (\<forall>(b, m)\<in>set found'. set (includes m) \<subseteq> fst ` set found')"
  using assms
proof (induction rule: recurse_walk_Some_induct)
  case (finished found st)
  then show ?case by auto
next
  case (seen b work found st found' st')
  define N where "N = fst ` set found"
  have b: "b \<in> N" using seen.hyps(1) by (simp add: N_def)
  have "\<forall>(c, m)\<in>set found. set (includes m) \<subseteq> N \<union> set (b # work)"
    using seen.prems(2) by (simp add: N_def)
  with b have "\<forall>(c, m)\<in>set found. set (includes m) \<subseteq> N \<union> set work"
    by fastforce
  from seen.IH[OF seen.prems(1) this[unfolded N_def]] b show ?case
    by (auto simp: N_def)
next
  case (loaded b work found st p m st1 found' st')
  have m: "m = manifest_content env p" by (rule load_manifest_Some[OF loaded.hyps(3)])
  have p1: "published env mom (found @ [(b, m)])"
    using loaded.prems(1) loaded.hyps(2) m by (auto simp: published_def)
  have p2: "\<forall>(c, k)\<in>set (found @ [(b, m)]).
              set (includes k) \<subseteq> fst ` set (found @ [(b, m)]) \<union> set (work @ includes m)"
    using loaded.prems(2) by auto
  from loaded.IH[OF p1 p2] show ?case by (auto intro: rev_image_eqI)
qed

lemma recurse_walk_within:
  assumes "recurse_walk env mom work found st = (Some found', st')"
    and closed: "\<And>b p. b \<in> V \<Longrightarrow> search_bundle_in_manifest mom b = Some p
                   \<Longrightarrow> set (includes (manifest_content env p)) \<subseteq> V"
  shows "set work \<subseteq> V \<Longrightarrow> fst ` set found \<subseteq> V \<Longrightarrow> fst ` set found' \<subseteq> V"
  using assms(1)
proof (induction rule: recurse_walk_Some_induct)
  case (finished found st)
  then show ?case by simp
next
  case (seen b work found st found' st')
  then show ?case by simp
next
  case (loaded b work found st p m st1 found' st')
  have m: "m = manifest_content env p" by (rule load_manifest_Some[OF loaded.hyps(3)])
  have "set (includes m) \<subseteq> V"
    using closed[of b p] loaded.prems(1) loaded.hyps(2) m by simp
  with loaded show ?case by simp
qed

lemma recurse_manifest_mono:
  assumes r1: "recurse_manifest env mom None stA = (R1, stA')"
    and r2: "recurse_manifest env mom None stB = (R2, stB')" and ne: "R2 \<noteq> []"
    and names: "sub_component ` set (subs stA) \<subseteq> sub_component ` set (subs stB)"
  shows "set R1 \<subseteq> set R2"
proof (cases "R1 = []")
  case True
  then show ?thesis by simp
next
  case False
  from r1 False obtain found1 where
    w1: "recurse_walk env mom (map sub_component (subs stA)) [] stA = (Some found1, stA')"
    and R1: "R1 = map snd found1"
    by (auto simp: recurse_manifest_def split: option.splits prod.splits)
  from r2 ne obtain found2 where
    w2: "recurse_walk env mom (map sub_component (subs stB)) [] stB = (Some found2, stB')"
    and R2: "R2 = map snd found2"
    by (auto simp: recurse_manifest_def split: option.splits prod.splits)
  have f1: "published env mom found1"
    using recurse_walk_found[OF w1] by (simp add: published_def)
  have f2: "set (map sub_component (subs stB)) \<subseteq> fst ` set found2"
    "published env mom found2"
    "\<forall>(b, m)\<in>set found2. set (includes m) \<subseteq> fst ` set found2"
    using recurse_walk_found[OF w2] by (simp_all add: published_def)
  have closed: "set (includes (manifest_content env p)) \<subseteq> fst ` set found2"
    if "b \<in> fst ` set found2" "search_bundle_in_manifest mom b = Some p" for b p
  proof -
    from that(1) obtain m where bm: "(b, m) \<in> set found2" by auto
    with f2(2) that(2) have "m = manifest_content env p" by (auto simp: published_def)
    with f2(3) bm show ?thesis by auto
  qed
  have within: "fst ` set found1 \<subseteq> fst ` set found2"
    using recurse_walk_within[OF w1, of "fst ` set found2"] closed names f2(1) by auto
  show ?thesis
  proof
    fix m assume "m \<in> set R1"
    then obtain b where bm: "(b, m) \<in> set found1" by (auto simp: R1)
    with within obtain m2 where bm2: "(b, m2) \<in> set found2" by force
    from bm f1 obtain p where "search_bundle_in_manifest mom b = Some p"
      "m = manifest_content env p" by (auto simp: published_def)
    moreover from bm2 f2(2) obtain p2 where "search_bundle_in_manifest mom b = Some p2"
      "m2 = manifest_content env p2" by (auto simp: published_def)
    ultimately have "m2 = m" by simp
    with bm2 show "m \<in> set R2" by (force simp: R2)
  qed
qed

lemma subs_recurse_manifest:
  "recurse_manifest env mom None st = (R, st') \<Longrightarrow> R \<noteq> [] \<Longrightarrow> subs st' = subs st"
  by (auto simp: recurse_manifest_def split: option.splits prod.splits dest: subs_recurse_walk)

lemma names_read_subscriptions_dir:
  "set (map sub_component (subs st))
     \<subseteq> set (map sub_component (subs (read_subscriptions_dir ns st)))"
proof (induction ns arbitrary: st)
  case Nil
  then show ?case by simp
next
  case (Cons n ns)
  show ?case
  proof (cases "component_subscribed (subs st) n")
    case True
    with Cons[of st] show ?thesis by simp
  next
    case False
    have "set (map sub_component (subs st))
            \<subseteq> set (map sub_component (subs (create_and_append_subscription n st)))"
      by (simp add: create_and_append_subscription_def subset_insertI)
    also have "\<dots> \<subseteq> set (map sub_component (subs (read_subscriptions_dir ns
                      (create_and_append_subscription n st))))"
      by (rule Cons)
    finally show ?thesis using False by simp
  qed
qed

lemma names_subscription_versions_from_MoM:
  "map sub_component (subs (subscription_versions_from_MoM mom st)) = map sub_component (subs st)"
proof -
  have "sub_component (case x of None \<Rightarrow> s | Some p \<Rightarrow> s\<lparr>sub_version := last_change p\<rparr>)
          = sub_component s" for x :: "file_entry option" and s :: sub
    by (cases x) simp_all
  then show ?thesis
    by (simp add: subscription_versions_from_MoM_def comp_def)
qed

lemma install_resolve_target:
  assumes "install_resolve fuel env bundles current_version mom st = Some (Inr (target, mom1), st1)"
  shows "filename ` set target \<subseteq> filename ` set (files mom1)"
proof -
  from assms obtain sa where a: "add_subscriptions fuel env bundles current_version mom st = Some (0, sa)"
    by (auto simp: install_resolve_def split: option.splits if_splits)
  define stA where "stA = subscription_versions_from_MoM mom sa"
  obtain R1 st2 where r1: "recurse_manifest env mom None stA = (R1, st2)"
    by (cases "recurse_manifest env mom None stA")
  define st4 where "st4 = subscription_versions_from_MoM mom
     (read_subscriptions_alt env (emit [RmStagingDir, DownloadPacks] st2))"
  obtain R2 st5 where r2: "recurse_manifest env mom None st4 = (R2, st5)"
    by (cases "recurse_manifest env mom None st4")
  from assms a r1 r2 have res: "R1 \<noteq> []" "R2 \<noteq> []"
    "target = consolidate_files (files_from_bundles R1)"
    "files mom1 = consolidate_files (files_from_bundles R2)"
    by (auto simp: install_resolve_def Let_def stA_def st4_def split: if_splits)
  have "subs st2 = subs stA" using subs_recurse_manifest[OF r1 res(1)] .
  then have "set (map sub_component (subs stA)) \<subseteq> set (map sub_component (subs st4))"
    using names_read_subscriptions_dir[of "emit [RmStagingDir, DownloadPacks] st2" "tracked_bundles env"]
    by (simp only: st4_def read_subscriptions_alt_def names_subscription_versions_from_MoM)
       (simp add: emit_def)
  then have "sub_component ` set (subs stA) \<subseteq> sub_component ` set (subs st4)"
    by simp
  from recurse_manifest_mono[OF r1 r2 res(2) this]
  have "set (files_from_bundles R1) \<subseteq> set (files_from_bundles R2)"
    by (auto simp: files_from_bundles_def)
  then show ?thesis
    by (auto simp: res(3,4) filename_consolidate_files)
qed


lemma fresh_env_install:
  "install_bundles 2 fresh_env [''devtools''] 10 ex_mom st0 = Some (EXIT_SUCCESS, fresh_final)"
  by (simp add: install_defs run_defs fresh_env_def ex_defs step_defs fresh_final_def
      staged_file_def numeral_2_eq_2)

text \<open>
  Claim C4. The events of every install operation that returns are, in this order: the
  preparation (fetches, clearing of the download directory, download of the packs), the
  staging events, the renames, and either nothing or the sync followed by the scripts. If
  there is a rename or a sync at all, the operation succeeds, the resolution has yielded
  the target set, and every file of the target set that is not skipped has a successful
  staging or path repair among the staging events, hence before the first rename; the sync
  comes after all renames and before the scripts.
\<close>

theorem install_stages_then_renames:
  assumes "install_bundles fuel env bundles current_version mom st = Some (ret, st')"
  shows "\<exists>prepare staging renames finish.
           trace st' = trace st @ prepare @ staging @ renames @ finish
         \<and> list_all is_prepare prepare \<and> list_all is_staging staging
         \<and> list_all is_rename renames
         \<and> (finish = [] \<or> finish = [Sync, RunScripts])
         \<and> (renames \<noteq> [] \<or> finish \<noteq> [] \<longrightarrow>
              ret = EXIT_SUCCESS \<and> finish = [Sync, RunScripts]
              \<and> (\<exists>target mom1 st1.
                    install_resolve fuel env bundles current_version mom st
                      = Some (Inr (target, mom1), st1)
                  \<and> (\<forall>f\<in>set target. \<not> skipped env f \<longrightarrow>
                         DoStaging (filename f) True \<in> set staging
                       \<or> VerifyFixPath (filename f) True \<in> set staging)))"
proof -
  from assms obtain r st1 where
    res: "install_resolve fuel env bundles current_version mom st = Some (r, st1)"
    by (auto simp: install_bundles_def split: option.splits)
  from prepare_install_resolve[OF res] obtain prepare where
    prep: "trace st1 = trace st @ prepare" "list_all is_prepare prepare"
    by (auto simp: extends_def)
  show ?thesis
  proof (cases r)
    case (Inl e)
    with assms res have "trace st' = trace st1"
      by (auto simp: install_bundles_def free_subscriptions_def)
    with prep show ?thesis
      by (intro exI[of _ prepare] exI[of _ "[]"]) simp
  next
    case (Inr tm)
    obtain target mom1 where tm: "tm = (target, mom1)" by (cases tm)
    obtain ok fs mom2 st2 where sf: "stage_files env target mom1 st1 = (ok, fs, mom2, st2)"
      by (metis prod_cases4)
    from stage_files_run[OF sf] obtain staging where
      stg: "trace st2 = trace st1 @ staging" "list_all is_staging staging"
      "ok \<longrightarrow> (\<forall>f\<in>set target. \<not> skipped env f \<longrightarrow>
                   DoStaging (filename f) True \<in> set staging
                 \<or> VerifyFixPath (filename f) True \<in> set staging)"
      by blast
    show ?thesis
    proof (cases ok)
      case False
      with assms res Inr tm sf have "trace st' = trace st2"
        by (auto simp: install_bundles_def install_files_def free_subscriptions_def)
      with prep stg show ?thesis
        by (intro exI[of _ prepare] exI[of _ staging] exI[of _ "[]"]) simp
    next
      case True
      from rename_files_run[of env fs mom2 st2] obtain renames where
        ren: "trace (rename_files env fs mom2 st2) = trace st2 @ renames"
        "list_all is_rename renames"
        by blast
      from assms res Inr tm sf True
      have "ret = EXIT_SUCCESS"
        "trace st' = trace (rename_files env fs mom2 st2) @ [Sync, RunScripts]"
        by (auto simp: install_bundles_def install_files_def free_subscriptions_def emit_def)
      with prep stg ren True res Inr tm show ?thesis
        by (intro exI[of _ prepare] exI[of _ staging] exI[of _ renames]
            exI[of _ "[Sync, RunScripts]"]) simp
    qed
  qed
qed

text \<open>
  The theorem at the installation of \<open>devtools\<close> on a system that has only \<open>os-core\<close>.
\<close>

theorem install_stages_then_renames_witness:
  "install_bundles 2 fresh_env [''devtools''] 10 ex_mom st0 = Some (EXIT_SUCCESS, fresh_final)
   \<and> (\<exists>prepare staging renames finish.
         trace fresh_final = trace st0 @ prepare @ staging @ renames @ finish
       \<and> list_all is_prepare prepare \<and> list_all is_staging staging
       \<and> list_all is_rename renames \<and> (finish = [] \<or> finish = [Sync, RunScripts]))"
  using install_stages_then_renames[OF fresh_env_install] fresh_env_install by blast

text \<open>
  Claim C10. In every install operation that returns, no rename is applied to a null
  lookup result: every file of the target set is found again by name in the consolidated
  files of the MoM, because the second resolution covers the sub-manifests of the first.
\<close>

theorem install_renames_no_null:
  assumes "install_bundles fuel env bundles current_version mom st = Some (ret, st')"
  shows "\<exists>evs. trace st' = trace st @ evs \<and> Rename None \<notin> set evs"
proof -
  from assms obtain r st1 where
    res: "install_resolve fuel env bundles current_version mom st = Some (r, st1)"
    by (auto simp: install_bundles_def split: option.splits)
  from prepare_install_resolve[OF res] obtain prepare where
    prep: "trace st1 = trace st @ prepare" "list_all is_prepare prepare"
    by (auto simp: extends_def)
  have p: "Rename None \<notin> set prepare"
    using prep(2) by (auto simp: list_all_iff is_prepare_def is_fetch_def)
  show ?thesis
  proof (cases r)
    case (Inl e)
    with assms res have "trace st' = trace st1"
      by (auto simp: install_bundles_def free_subscriptions_def)
    with prep p show ?thesis by auto
  next
    case (Inr tm)
    obtain target mom1 where tm: "tm = (target, mom1)" by (cases tm)
    have cover: "filename ` set target \<subseteq> filename ` set (files mom1)"
      using install_resolve_target[OF res[unfolded Inr tm]] .
    obtain ok fs mom2 st2 where sf: "stage_files env target mom1 st1 = (ok, fs, mom2, st2)"
      by (metis prod_cases4)
    from stage_files_run[OF sf] obtain staging where
      stg: "trace st2 = trace st1 @ staging" "list_all is_staging staging"
      "ok \<longrightarrow> map filename fs = map filename target"
      "map filename (files mom2) = map filename (files mom1)"
      by blast
    have s: "Rename None \<notin> set staging"
      using stg(2) by (auto simp: list_all_iff is_staging_def)
    show ?thesis
    proof (cases ok)
      case False
      with assms res Inr tm sf have "trace st' = trace st2"
        by (auto simp: install_bundles_def install_files_def free_subscriptions_def)
      with prep stg p s show ?thesis by auto
    next
      case True
      have "set (map filename fs) \<subseteq> set (map filename (files mom2))"
        using cover stg(3,4) True by simp
      then have "filename ` set fs \<subseteq> filename ` set (files mom2)" by simp
      with rename_files_run[of env fs mom2 st2] obtain renames where
        ren: "trace (rename_files env fs mom2 st2) = trace st2 @ renames"
        "Rename None \<notin> set renames"
        by blast
      from assms res Inr tm sf True
      have "trace st' = trace (rename_files env fs mom2 st2) @ [Sync, RunScripts]"
        by (auto simp: install_bundles_def install_files_def free_subscriptions_def emit_def)
      with prep stg ren p s show ?thesis by auto
    qed
  qed
qed


text \<open>
  The theorem at the same installation: \<open>/usr/bin/gcc\<close> is staged by the repair of its
  path, and the rename is applied to the entry found in the files of the MoM.
\<close>

theorem install_renames_no_null_witness:
  "install_bundles 2 fresh_env [''devtools''] 10 ex_mom st0 = Some (EXIT_SUCCESS, fresh_final)
   \<and> VerifyFixPath ''/usr/bin/gcc'' True \<in> set (trace fresh_final)
   \<and> Rename (Some (staged_file ''/usr/bin/gcc'' ''h3'')) \<in> set (trace fresh_final)
   \<and> Rename None \<notin> set (trace fresh_final)"
  using install_renames_no_null[OF fresh_env_install] fresh_env_install
  by (auto simp: st0_def) (simp_all add: fresh_final_def)


section \<open>Removing: what is unlinked\<close>







end
